theory Spec2Isabelle
  imports Complex_Main "HOL-Library.Word" "HOL-Library.Signed_Division"
begin

section \<open>The render loop of Step4Preview.tsx\<close>

text \<open>
  The component keeps its animation state in React refs that only \<open>renderFrame\<close>
  writes: \<open>energyHistoryRef\<close>, \<open>lastBeatTimeRef\<close>, \<open>sequenceIndexRef\<close> and
  \<open>beatFlashRef\<close>. They are the fields of one record, passed through each frame.

  JavaScript numbers are modelled as follows. Quantities that the code computes
  with fractions (energies, timestamps, the slider value, the flash level) are
  \<open>real\<close>. The frame exists in two forms. In \<open>renderFrame\<close> and the functions it is
  made of the arithmetic is the exact one. In \<open>renderFrameR\<close> and the functions
  whose names end in \<open>R\<close> every arithmetic operation and every literal with a
  fraction is followed by a rounding \<open>rd\<close>, as the operations on IEEE doubles are
  (the exact result, rounded); \<open>toDouble\<close> is that rounding, and with the
  identity for \<open>rd\<close> the second form is the first. The sequence index only ever
  holds integers and is an \<open>int\<close>, with JavaScript's \<open>%\<close> (the sign follows the
  dividend) as \<open>smod\<close>. A value that would be \<open>NaN\<close> or \<open>undefined\<close> in
  JavaScript is \<open>None\<close>.
\<close>

subsection \<open>Types\<close>

text \<open>\<open>export type PoseType = 'base' | 'var1' | 'var2' | 'var3'\<close> (types.ts).\<close>

datatype PoseType = base | var1 | var2 | var3

record refs =
  energyHistory :: "real list"
  lastBeatTime :: real
  sequenceIndex :: int
  beatFlash :: real

text \<open>The values the \<open>useRef\<close> calls give the refs when the component mounts.\<close>

definition initialRefs :: refs where
  "initialRefs = \<lparr>energyHistory = [], lastBeatTime = 0, sequenceIndex = 0, beatFlash = 0\<rparr>"

subsection \<open>Audio analysis\<close>

text \<open>
  \<open>getByteFrequencyData\<close> fills a \<open>Uint8Array\<close>. The loop
  \<open>for (i = startBin; i < endBin; i++) bassSum += dataArray[i]\<close> adds bins 2..7, and
  \<open>bassLevel = (bassSum / (endBin - startBin)) / 255\<close>. Reading a bin that the
  array does not have gives \<open>undefined\<close>, and the sum becomes \<open>NaN\<close>: that is
  \<open>None\<close> here. (The analyser is created with \<open>fftSize = 2048\<close>, so the array has
  1024 bins.)
\<close>

definition startBin :: nat where "startBin = 2"
definition endBin :: nat where "endBin = 8"

definition bassSum :: "8 word list \<Rightarrow> nat option" where
  "bassSum dataArray =
     (if length dataArray < endBin then None
      else Some (foldl (\<lambda>s i. s + unat (dataArray ! i)) 0 [startBin..<endBin]))"

definition bassLevelOf :: "8 word list \<Rightarrow> real option" where
  "bassLevelOf dataArray =
     (case bassSum dataArray of
        None \<Rightarrow> None
      | Some s \<Rightarrow> Some ((real s / real (endBin - startBin)) / 255))"

text \<open>
  \<open>energyHistoryRef.current.push(bassLevel); if (length > historySize) shift()\<close>:
  the sample is appended first, then the oldest one is dropped when the array
  has grown beyond 60.
\<close>

definition historySize :: nat where "historySize = 60"

definition pushEnergy :: "real list \<Rightarrow> real \<Rightarrow> real list" where
  "pushEnergy h bassLevel =
     (let h1 = h @ [bassLevel]
      in if length h1 > historySize then tl h1 else h1)"

text \<open>
  \<open>reduce((a, b) => a + b, 0) / length\<close>. On an empty array the sum is 0 and
  the quotient \<open>0 / 0\<close> is \<open>NaN\<close>.
\<close>

definition avgEnergy :: "real list \<Rightarrow> real option" where
  "avgEnergy h =
     (if length h = 0 then None else Some (foldl (\<lambda>a b. a + b) 0 h / real (length h)))"

text \<open>\<open>const sensitivity = 1.5 - (state.intensity / 200)\<close>\<close>

definition sensitivity :: "real \<Rightarrow> real" where
  "sensitivity intensity = 1.5 - intensity / 200"

text \<open>\<open>const threshold = avgEnergy * sensitivity\<close>\<close>

definition threshold :: "real \<Rightarrow> real \<Rightarrow> real" where
  "threshold avg intensity = avg * sensitivity intensity"

text \<open>
  The analysis block of \<open>renderFrame\<close> for a frame whose bass level has been
  computed: push, average, threshold, trigger. It returns \<open>isBeat\<close> and the refs.
  A comparison with \<open>NaN\<close> is false, so a \<open>NaN\<close> average gives no beat.
\<close>

definition detectBeat :: "real \<Rightarrow> real \<Rightarrow> real \<Rightarrow> refs \<Rightarrow> bool \<times> refs" where
  "detectBeat intensity time bassLevel r =
     (let r1 = r\<lparr>energyHistory := pushEnergy (energyHistory r) bassLevel\<rparr>
      in case avgEnergy (energyHistory r1) of
           None \<Rightarrow> (False, r1)
         | Some avg \<Rightarrow>
             if bassLevel > threshold avg intensity \<and> bassLevel > 0.3
             then (if time - lastBeatTime r1 > 200
                   then (True, r1\<lparr>lastBeatTime := time\<rparr>)
                   else (False, r1))
             else (False, r1))"

text \<open>The rolling baseline a frame computes: the mean of the history after the push.\<close>

definition baseline :: "real list \<Rightarrow> real \<Rightarrow> real option" where
  "baseline h bassLevel = avgEnergy (pushEnergy h bassLevel)"

subsection \<open>Audio analysis in double arithmetic\<close>

text \<open>
  Rounding to the nearest double, ties to the even significand: a double is a
  multiple of \<open>2 ^ (e - 52)\<close> for the exponent \<open>e\<close> of its binade, and of
  \<open>2 ^ (- 1074)\<close> below \<open>2 ^ (- 1022)\<close>. Overflow to \<open>Infinity\<close> is not modelled:
  the quantities of the frame stay far below \<open>2 ^ 1024\<close>.
\<close>

definition pow2 :: "int \<Rightarrow> real" where
  "pow2 e = (if 0 \<le> e then 2 ^ nat e else 1 / 2 ^ nat (- e))"

definition roundEven :: "real \<Rightarrow> int" where
  "roundEven y =
     (let f = \<lfloor>y\<rfloor>; d = y - of_int f
      in if d < 1 / 2 then f else if 1 / 2 < d then f + 1 else if even f then f else f + 1)"

definition toDouble :: "real \<Rightarrow> real" where
  "toDouble x =
     (if x = 0 then 0
      else
        let e = max \<lfloor>log 2 \<bar>x\<bar>\<rfloor> (- 1022);
            u = pow2 (e - 52)
        in sgn x * (of_int (roundEven (\<bar>x\<bar> / u)) * u))"

text \<open>
  The analysis block again, each operation followed by the rounding \<open>rd\<close>:
  \<open>bassLevel = (bassSum / 6) / 255\<close>, the left fold of \<open>reduce\<close> and the division by
  the length, \<open>1.5 - (state.intensity / 200)\<close>, \<open>avgEnergy * sensitivity\<close> and
  \<open>time - lastBeatTimeRef.current\<close>. The literals \<open>1.5\<close> and \<open>0.3\<close> are the doubles
  nearest to them; integers such as 200 and the lengths are doubles as they are.
  Comparisons of doubles are exact.
\<close>

definition bassLevelOfR :: "(real \<Rightarrow> real) \<Rightarrow> 8 word list \<Rightarrow> real option" where
  "bassLevelOfR rd dataArray =
     (case bassSum dataArray of
        None \<Rightarrow> None
      | Some s \<Rightarrow> Some (rd (rd (real s / real (endBin - startBin)) / 255)))"

definition avgEnergyR :: "(real \<Rightarrow> real) \<Rightarrow> real list \<Rightarrow> real option" where
  "avgEnergyR rd h =
     (if length h = 0 then None
      else Some (rd (foldl (\<lambda>a b. rd (a + b)) 0 h / real (length h))))"

definition sensitivityR :: "(real \<Rightarrow> real) \<Rightarrow> real \<Rightarrow> real" where
  "sensitivityR rd intensity = rd (rd 1.5 - rd (intensity / 200))"

definition thresholdR :: "(real \<Rightarrow> real) \<Rightarrow> real \<Rightarrow> real \<Rightarrow> real" where
  "thresholdR rd avg intensity = rd (avg * sensitivityR rd intensity)"

definition detectBeatR ::
  "(real \<Rightarrow> real) \<Rightarrow> real \<Rightarrow> real \<Rightarrow> real \<Rightarrow> refs \<Rightarrow> bool \<times> refs" where
  "detectBeatR rd intensity time bassLevel r =
     (let r1 = r\<lparr>energyHistory := pushEnergy (energyHistory r) bassLevel\<rparr>
      in case avgEnergyR rd (energyHistory r1) of
           None \<Rightarrow> (False, r1)
         | Some avg \<Rightarrow>
             if bassLevel > thresholdR rd avg intensity \<and> bassLevel > rd 0.3
             then (if rd (time - lastBeatTime r1) > 200
                   then (True, r1\<lparr>lastBeatTime := time\<rparr>)
                   else (False, r1))
             else (False, r1))"

definition baselineR :: "(real \<Rightarrow> real) \<Rightarrow> real list \<Rightarrow> real \<Rightarrow> real option" where
  "baselineR rd h bassLevel = avgEnergyR rd (pushEnergy h bassLevel)"

subsection \<open>Sequencer\<close>

text \<open>\<open>const sequence: PoseType[] = ['base', 'var1', 'var2', 'var3', 'var2', 'var1']\<close>\<close>

definition sequence :: "PoseType list" where
  "sequence = [base, var1, var2, var3, var2, var1]"

text \<open>
  The body of \<open>if (isBeat) { ... }\<close> for the index: one step, then two more when
  \<open>Math.random() < 0.1\<close>. The random draw is the argument \<open>rnd\<close>.
\<close>

definition advance :: "real \<Rightarrow> int \<Rightarrow> int" where
  "advance rnd i =
     (let i1 = (i + 1) smod int (length sequence)
      in if rnd < 0.1 then (i1 + 2) smod int (length sequence) else i1)"

text \<open>
  \<open>sequence[sequenceIndexRef.current]\<close>: \<open>undefined\<close> outside the array, a pose
  inside it.
\<close>

definition desiredPose :: "int \<Rightarrow> PoseType option" where
  "desiredPose i =
     (if 0 \<le> i \<and> i < int (length sequence) then Some (sequence ! nat i) else None)"

definition sequencer :: "bool \<Rightarrow> real \<Rightarrow> refs \<Rightarrow> refs" where
  "sequencer isBeat rnd r =
     (if isBeat
      then r\<lparr>beatFlash := 1.0, sequenceIndex := advance rnd (sequenceIndex r)\<rparr>
      else r)"

text \<open>
  The refs through a run of accepted beats, one random draw per beat: the refs
  before each beat, then the last ones.
\<close>

fun beats :: "real list \<Rightarrow> refs \<Rightarrow> refs list" where
  "beats [] r = [r]"
| "beats (rnd # rnds) r = r # beats rnds (sequencer True rnd r)"

subsection \<open>Beat flash overlay\<close>

text \<open>
  \<open>if (beatFlashRef.current > 0.01) { beatFlashRef.current *= 0.85; ... }\<close>. The
  overlay is filled with \<open>rgba(255, 255, 255, beatFlash * 0.15)\<close>; the second
  component is that alpha, \<open>None\<close> when nothing is drawn.
\<close>

definition flashOverlay :: "refs \<Rightarrow> refs \<times> real option" where
  "flashOverlay r =
     (if beatFlash r > 0.01
      then (let r1 = r\<lparr>beatFlash := beatFlash r * 0.85\<rparr>
            in (r1, Some (beatFlash r1 * 0.15)))
      else (r, None))"

text \<open>The same in double arithmetic; \<open>0.01\<close>, \<open>0.85\<close> and \<open>0.15\<close> are literals.\<close>

definition flashOverlayR :: "(real \<Rightarrow> real) \<Rightarrow> refs \<Rightarrow> refs \<times> real option" where
  "flashOverlayR rd r =
     (if beatFlash r > rd 0.01
      then (let r1 = r\<lparr>beatFlash := rd (beatFlash r * rd 0.85)\<rparr>
            in (r1, Some (rd (beatFlash r1 * rd 0.15))))
      else (r, None))"

subsection \<open>One frame\<close>

record frame =
  isBeat :: bool
  bassLevel :: real
  pose :: "PoseType option"
  overlayAlpha :: "real option"

text \<open>
  \<open>renderFrame(time)\<close>. \<open>ready\<close> is the guard
  \<open>canvas && ctx && imagesReady && poseImages['base']\<close>: without it the frame returns
  at once. \<open>analysed\<close> is \<open>None\<close> when
  \<open>analyserRef.current && (isPlaying || isRecording)\<close> is false, and otherwise the
  bass level computed from the analyser's array (\<open>bassLevelOf\<close>). \<open>rnd\<close> is the
  draw of the stutter. The result is what the frame draws with, and the refs.
\<close>

definition renderFrame ::
  "real \<Rightarrow> bool \<Rightarrow> real \<Rightarrow> real option \<Rightarrow> real \<Rightarrow> refs \<Rightarrow> frame option \<times> refs" where
  "renderFrame intensity ready time analysed rnd r =
     (if \<not> ready then (None, r)
      else
        let (beat, level, r1) =
              (case analysed of
                 None \<Rightarrow> (False, 0, r)
               | Some b \<Rightarrow> (let (bt, r') = detectBeat intensity time b r in (bt, b, r')));
            r2 = sequencer beat rnd r1;
            (r3, alpha) = flashOverlay r2
        in (Some \<lparr>isBeat = beat, bassLevel = level,
                  pose = desiredPose (sequenceIndex r2), overlayAlpha = alpha\<rparr>, r3))"

text \<open>The frame in double arithmetic, with the rounding \<open>rd\<close>.\<close>

definition renderFrameR ::
  "(real \<Rightarrow> real) \<Rightarrow> real \<Rightarrow> bool \<Rightarrow> real \<Rightarrow> real option \<Rightarrow> real \<Rightarrow> refs
     \<Rightarrow> frame option \<times> refs" where
  "renderFrameR rd intensity ready time analysed rnd r =
     (if \<not> ready then (None, r)
      else
        let (beat, level, r1) =
              (case analysed of
                 None \<Rightarrow> (False, 0, r)
               | Some b \<Rightarrow> (let (bt, r') = detectBeatR rd intensity time b r in (bt, b, r')));
            r2 = sequencer beat rnd r1;
            (r3, alpha) = flashOverlayR rd r2
        in (Some \<lparr>isBeat = beat, bassLevel = level,
                  pose = desiredPose (sequenceIndex r2), overlayAlpha = alpha\<rparr>, r3))"

section \<open>The export pipeline of Step4Preview.tsx\<close>

text \<open>
  \<open>handleDownload\<close> creates a \<open>MediaRecorder\<close> and a polling timer and closes
  over both; the \<open>onstop\<close> handler of the recorder finishes the export. The
  component state they share is a record; the recorder, the timer and the
  constant \<open>duration\<close> of one call are a \<open>session\<close>. A call of
  \<open>handleDownload\<close> that waits at its \<open>await\<close> is an entry of \<open>pending\<close>, the
  duration it will use. Calls on the recorder and on the audio element are
  appended to \<open>calls\<close>, in the order the code makes them.
\<close>

record audio_el =
  currentTime :: real
  loop :: bool
  paused :: bool

datatype recorder_state = inactive | recording

record session =
  recorder :: recorder_state
  polling :: bool
  duration :: real
  stopHandled :: bool

datatype call =
  RecorderStart nat | RecorderStop nat | AudioPlay | AudioPause | ClearInterval nat | SaveFile nat

record component =
  audioRef :: "audio_el option"
  destRef :: bool
  canvasRef :: bool
  audioCtxRef :: bool
  isPlaying :: bool
  isRecording :: bool
  imagesReady :: bool
  downloadProgress :: real
  error :: "string option"
  sessions :: "session list"
  pending :: "real list"
  calls :: "call list"

text \<open>
  \<open>initAudio()\<close> as \<open>handleDownload\<close> calls it, that is with \<open>audioRef.current\<close>
  empty. What it does depends on the page: the audio URL may be missing, and
  building the audio graph may throw. The new element has \<open>loop = true\<close>.
\<close>

datatype init_outcome = MissingAudio | InitThrows | InitOk

definition initAudio :: "init_outcome \<Rightarrow> component \<Rightarrow> bool \<times> component" where
  "initAudio env c =
     (case env of
        MissingAudio \<Rightarrow> (False, c\<lparr>error := Some ''Audio file is missing.''\<rparr>)
      | InitThrows \<Rightarrow> (False, c\<lparr>error := Some ''Could not initialize audio engine.''\<rparr>)
      | InitOk \<Rightarrow>
          (True, c\<lparr>audioRef := Some \<lparr>currentTime = 0, loop = True, paused = True\<rparr>,
                   destRef := True, audioCtxRef := True\<rparr>))"

text \<open>
  The second half of \<open>handleDownload\<close>, from \<open>// 2. Setup Recorder\<close> on: the
  streams are taken from the canvas and the destination node, the recorder is
  made and started, playback starts and the timer is set. A \<open>null\<close> ref makes
  the statement that reads it throw, and the rest is then not run.
\<close>

definition startRecording :: "real \<Rightarrow> component \<Rightarrow> component" where
  "startRecording d c =
     (if \<not> canvasRef c \<or> \<not> destRef c then c
      else
        let n = length (sessions c);
            s = \<lparr>recorder = recording, polling = False, duration = d, stopHandled = False\<rparr>
        in case audioRef c of
             None \<Rightarrow> c\<lparr>sessions := sessions c @ [s], calls := calls c @ [RecorderStart n]\<rparr>
           | Some a \<Rightarrow>
               c\<lparr>audioRef := Some (a\<lparr>paused := False\<rparr>),
                 sessions := sessions c @ [s\<lparr>polling := True\<rparr>],
                 calls := calls c @ [RecorderStart n, AudioPlay]\<rparr>)"

text \<open>
  \<open>handleDownload\<close>, with \<open>state.duration\<close> as \<open>d\<close>. After the checks it sets
  \<open>isRecording\<close>, resets playback, and, when the audio context is suspended
  (\<open>suspended\<close>), waits for \<open>audioCtxRef.current.resume()\<close>: the call is then
  pending and \<open>resumed\<close> continues it. Otherwise it goes on at once.
\<close>

definition handleDownload :: "real \<Rightarrow> init_outcome \<Rightarrow> bool \<Rightarrow> component \<Rightarrow> component" where
  "handleDownload d env suspended c =
     (let (ok, c1) = (if audioRef c = None then initAudio env c else (True, c))
      in if \<not> ok then c1
         else
           (case audioRef c1 of
              None \<Rightarrow> c1\<lparr>error := Some ''Engine not ready for export.''\<rparr>
            | Some a \<Rightarrow>
                if \<not> destRef c1 \<or> \<not> canvasRef c1 \<or> \<not> audioCtxRef c1
                then c1\<lparr>error := Some ''Engine not ready for export.''\<rparr>
                else
                  let a1 = (if isPlaying c1 then a\<lparr>paused := True\<rparr> else a);
                      c2 = c1\<lparr>isRecording := True, downloadProgress := 0, isPlaying := False,
                              audioRef := Some (a1\<lparr>currentTime := 0, loop := False\<rparr>),
                              calls := calls c1 @ (if isPlaying c1 then [AudioPause] else [])\<rparr>
                  in if suspended then c2\<lparr>pending := pending c2 @ [d]\<rparr>
                     else startRecording d c2))"

definition resumed :: "component \<Rightarrow> component" where
  "resumed c =
     (case pending c of
        [] \<Rightarrow> c
      | d # ds \<Rightarrow> startRecording d (c\<lparr>pending := ds\<rparr>))"

text \<open>
  The button: \<open>onClick={handleDownload}\<close>,
  \<open>disabled={isRecording || !imagesReady}\<close>. A disabled button delivers no click.
\<close>

definition clickDownload :: "real \<Rightarrow> init_outcome \<Rightarrow> bool \<Rightarrow> component \<Rightarrow> component" where
  "clickDownload d env suspended c =
     (if isRecording c \<or> \<not> imagesReady c then c else handleDownload d env suspended c)"

text \<open>
  The callback of \<open>setInterval(..., 100)\<close> of session \<open>i\<close>; it runs only while the
  timer has not been cleared. \<open>recorder.stop()\<close> throws on a recorder that is
  not recording, and the rest of the callback is then skipped. The quotient
  \<open>currentTime / duration\<close> is the one of the code for a duration other than 0
  (the slider gives 5 to 30); the properties below take the duration positive.
\<close>

definition poll :: "nat \<Rightarrow> component \<Rightarrow> component" where
  "poll i c =
     (if i < length (sessions c) \<and> polling (sessions c ! i)
      then
        (case audioRef c of
           None \<Rightarrow> c
         | Some a \<Rightarrow>
             let s = sessions c ! i;
                 p = (currentTime a / duration s) * 100;
                 c1 = c\<lparr>downloadProgress := min 99 p\<rparr>
             in if currentTime a \<ge> duration s
                then (if recorder s = recording
                      then c1\<lparr>sessions := (sessions c)[i := s\<lparr>recorder := inactive,
                                                               polling := False\<rparr>],
                              audioRef := Some (a\<lparr>paused := True\<rparr>),
                              downloadProgress := 100,
                              calls := calls c @ [RecorderStop i, AudioPause, ClearInterval i]\<rparr>
                      else c1)
                else c1)
      else c)"

text \<open>
  \<open>recorder.onstop\<close> of session \<open>i\<close>: the browser fires the event once, after
  \<open>stop()\<close>. The handler saves the file, clears \<open>isRecording\<close> and restores the
  audio element.
\<close>

definition onstop :: "nat \<Rightarrow> component \<Rightarrow> component" where
  "onstop i c =
     (if i < length (sessions c) \<and> recorder (sessions c ! i) = inactive
         \<and> \<not> stopHandled (sessions c ! i)
      then c\<lparr>isRecording := False,
             audioRef := map_option (\<lambda>a. a\<lparr>loop := True, currentTime := 0\<rparr>) (audioRef c),
             sessions := (sessions c)[i := (sessions c ! i)\<lparr>stopHandled := True\<rparr>],
             calls := calls c @ [SaveFile i]\<rparr>
      else c)"

text \<open>
  Playback moves \<open>audio.currentTime\<close>; a paused element keeps its position.
  \<open>runPolls\<close> lets the clock take the given readings, with one timer callback
  after each.
\<close>

definition playback :: "real \<Rightarrow> component \<Rightarrow> component" where
  "playback t c =
     c\<lparr>audioRef := map_option (\<lambda>a. if paused a then a else a\<lparr>currentTime := t\<rparr>) (audioRef c)\<rparr>"

fun runPolls :: "nat \<Rightarrow> real list \<Rightarrow> component \<Rightarrow> component" where
  "runPolls i [] c = c"
| "runPolls i (t # ts) c = runPolls i ts (poll i (playback t c))"

text \<open>
  A session is active from its creation until its \<open>onstop\<close> handler has run
  (recording, then finalizing).
\<close>

definition active :: "component \<Rightarrow> nat" where
  "active c = length (filter (\<lambda>s. \<not> stopHandled s) (sessions c))"

text \<open>
  The states one mount of the component goes through when it mounts with
  \<open>isRecording = false\<close>, no recorder running and no call of \<open>handleDownload\<close> under
  way, as the first mount of the page does. \<open>setIsRecording\<close> is called, and a
  recorder is made or stopped, only in \<open>handleDownload\<close>, in the timer callback
  and in \<open>onstop\<close>; every other handler (image loading, \<open>togglePlay\<close>, the
  rerender on new props) leaves them alone, which is rule \<open>other\<close>. A mount that
  finds a recorder of an earlier mount still running (see \<open>remount\<close>) starts
  outside this set.
\<close>

inductive withinMount :: "component \<Rightarrow> bool" where
  mount: "sessions c = [] \<Longrightarrow> pending c = [] \<Longrightarrow> \<not> isRecording c \<Longrightarrow> withinMount c"
| click: "withinMount c \<Longrightarrow> withinMount (clickDownload d env suspended c)"
| resume: "withinMount c \<Longrightarrow> withinMount (resumed c)"
| tick: "withinMount c \<Longrightarrow> withinMount (poll i c)"
| stopped: "withinMount c \<Longrightarrow> withinMount (onstop i c)"
| clock: "withinMount c \<Longrightarrow> withinMount (playback t c)"
| other: "withinMount c \<Longrightarrow> sessions c' = sessions c \<Longrightarrow> pending c' = pending c
          \<Longrightarrow> isRecording c' = isRecording c \<Longrightarrow> withinMount c'"

text \<open>
  What links \<open>isRecording\<close> to the sessions: while \<open>isRecording\<close> is set there
  is at most one session active or about to start, and otherwise none.
\<close>

definition captureInv :: "component \<Rightarrow> bool" where
  "captureInv c = (active c + length (pending c) \<le> (if isRecording c then 1 else 0))"

text \<open>
  Session \<open>i\<close> is recording: its recorder records, its timer is live, its stop
  event has not been handled and the audio element plays. This is the state
  \<open>handleDownload\<close> leaves behind.
\<close>

definition capturing :: "nat \<Rightarrow> component \<Rightarrow> bool" where
  "capturing i c =
     (i < length (sessions c) \<and> polling (sessions c ! i)
      \<and> recorder (sessions c ! i) = recording \<and> \<not> stopHandled (sessions c ! i)
      \<and> (case audioRef c of None \<Rightarrow> False | Some a \<Rightarrow> \<not> paused a))"

text \<open>
  The component as it mounts (the arguments of its \<open>useState\<close> and \<open>useRef\<close>
  calls), and the step that ends image loading: \<open>setImagesReady(true)\<close>, after
  which the canvas is rendered and \<open>canvasRef\<close> is set.
\<close>

definition mountedComponent :: component where
  "mountedComponent =
     \<lparr>audioRef = None, destRef = False, canvasRef = False, audioCtxRef = False,
      isPlaying = False, isRecording = False, imagesReady = False, downloadProgress = 0,
      error = None, sessions = [], pending = [], calls = []\<rparr>"

definition imagesLoaded :: "component \<Rightarrow> component" where
  "imagesLoaded c = c\<lparr>imagesReady := True, canvasRef := True\<rparr>"

text \<open>
  Leaving step 4 and coming back. \<open>App\<close> renders \<open>Step4Preview\<close> only while
  \<open>appState.step === AppStep.PREVIEW\<close>; the step buttons of its header stay
  enabled on step 4 (\<open>goToStep\<close>), and \<open>Generate Loop\<close> leads back to it. The
  component is then unmounted and mounted again: its \<open>useState\<close> and \<open>useRef\<close>
  values are the initial ones. The only effect cleanups of the component are
  \<open>isMounted = false\<close> of the image loader and \<open>cancelAnimationFrame\<close> of the render
  loop; nothing stops the recorder, clears the timer or pauses the audio
  element of a session, and a call waiting at its \<open>await\<close> goes on, so the sessions
  and the pending calls stay. (Their callbacks keep the refs and setters of the
  mount that made them; \<open>poll\<close> and \<open>onstop\<close> above are for sessions of the
  current mount.)
\<close>

definition remount :: "component \<Rightarrow> component" where
  "remount c = mountedComponent\<lparr>sessions := sessions c, pending := pending c, calls := calls c\<rparr>"

section \<open>Properties of the audio analysis\<close>

lemma length_pushEnergy:
  "length (pushEnergy h x) = (if length h < historySize then Suc (length h) else length h)"
  by (simp add: pushEnergy_def Let_def)

lemma pushEnergy_below: "length h < historySize \<Longrightarrow> pushEnergy h x = h @ [x]"
  by (simp add: pushEnergy_def Let_def)

lemma pushEnergy_full: "length h \<ge> historySize \<Longrightarrow> pushEnergy h x = tl (h @ [x])"
  by (simp add: pushEnergy_def Let_def)

lemma foldl_pushEnergy:
  "length h \<le> historySize \<Longrightarrow>
   foldl pushEnergy h xs = drop (length h + length xs - historySize) (h @ xs)"
proof (induction xs arbitrary: h)
  case Nil
  then show ?case by simp
next
  case (Cons x xs)
  have len: "length (pushEnergy h x) \<le> historySize"
    using Cons.prems by (simp add: length_pushEnergy)
  show ?case
  proof (cases "length h < historySize")
    case True
    then have "pushEnergy h x = h @ [x]" by (rule pushEnergy_below)
    with Cons.IH [OF len] show ?thesis by simp
  next
    case False
    with Cons.prems have eq: "length h = historySize" by simp
    then have p: "pushEnergy h x = tl (h @ [x])" by (simp add: pushEnergy_full)
    have h: "h \<noteq> []" using eq by (auto simp: historySize_def)
    then have p': "pushEnergy h x = tl h @ [x]" using p by simp
    have l: "length (tl h @ [x]) = historySize" using h eq by (simp add: historySize_def)
    have "foldl pushEnergy (pushEnergy h x) xs =
          drop (length (pushEnergy h x) + length xs - historySize) (pushEnergy h x @ xs)"
      by (rule Cons.IH [OF len])
    also have "\<dots> = drop (length xs) ((tl h @ [x]) @ xs)"
      unfolding p' l by simp
    also have "\<dots> = drop (length xs) (tl (h @ x # xs))"
      using h by simp
    also have "\<dots> = drop (Suc (length xs)) (h @ x # xs)"
      by (simp only: drop_Suc)
    finally show ?thesis using eq by simp
  qed
qed

lemma foldl_plus_sum_list: "foldl (\<lambda>a b. a + b) s h = s + sum_list (h :: real list)"
  by (induction h arbitrary: s) simp_all

lemma pushEnergy_not_Nil: "pushEnergy h x \<noteq> []"
proof -
  have "0 < length (pushEnergy h x)"
    by (auto simp: length_pushEnergy historySize_def)
  then show ?thesis by simp
qed

lemma baseline_eq:
  "baseline h x = Some (sum_list (pushEnergy h x) / real (length (pushEnergy h x)))"
  using pushEnergy_not_Nil [of h x]
  by (simp add: baseline_def avgEnergy_def foldl_plus_sum_list)

lemma baseline_Nil: "baseline [] x = Some x"
  by (simp add: baseline_def avgEnergy_def pushEnergy_def historySize_def)

lemma detectBeat_fst:
  "baseline (energyHistory r) b = Some avg \<Longrightarrow>
   fst (detectBeat i t b r) = (b > threshold avg i \<and> b > 0.3 \<and> t - lastBeatTime r > 200)"
  by (auto simp: detectBeat_def baseline_def Let_def)

lemma detectBeat_lastBeatTime:
  "lastBeatTime (snd (detectBeat i t b r)) = (if fst (detectBeat i t b r) then t else lastBeatTime r)"
  by (simp add: detectBeat_def Let_def split: option.splits)

lemma detectBeat_energyHistory:
  "energyHistory (snd (detectBeat i t b r)) = pushEnergy (energyHistory r) b"
  by (simp add: detectBeat_def Let_def split: option.splits)

lemma renderFrame_analysed:
  "renderFrame i True t (Some b) rnd r = (Some f, r') \<Longrightarrow>
   isBeat f = fst (detectBeat i t b r) \<and> lastBeatTime r' = lastBeatTime (snd (detectBeat i t b r))
   \<and> energyHistory r' = energyHistory (snd (detectBeat i t b r))"
  by (auto simp: renderFrame_def sequencer_def flashOverlay_def Let_def split: prod.splits if_splits)

lemma renderFrame_ready: "\<exists>f r'. renderFrame i True t a rnd r = (Some f, r')"
  by (simp add: renderFrame_def Let_def split: prod.splits option.splits)

lemma sensitivity_range: "0 \<le> s \<Longrightarrow> s \<le> 100 \<Longrightarrow> 1 \<le> sensitivity s \<and> sensitivity s \<le> 1.5"
  by (simp add: sensitivity_def)

lemma first_no_beat: "energyHistory r = [] \<Longrightarrow> 0 \<le> b \<Longrightarrow> i \<le> 100 \<Longrightarrow> \<not> fst (detectBeat i t b r)"
proof -
  assume h: "energyHistory r = []" and b: "0 \<le> b" and i: "i \<le> 100"
  have "1 \<le> sensitivity i" using i by (simp add: sensitivity_def)
  then have "b * 1 \<le> b * sensitivity i" using b by (rule mult_left_mono)
  then have "\<not> b > threshold b i" by (simp add: threshold_def)
  moreover have "baseline (energyHistory r) b = Some b" using h by (simp add: baseline_Nil)
  ultimately show ?thesis by (simp add: detectBeat_fst)
qed

lemma bassSum_le: "bassSum d = Some s \<Longrightarrow> s \<le> 6 * 255"
proof -
  have u: "\<And>w :: 8 word. unat w \<le> 255"
  proof -
    fix w :: "8 word"
    have "unat w < 2 ^ LENGTH(8)" by (rule unsigned_less)
    then show "unat w \<le> 255" by simp
  qed
  assume "bassSum d = Some s"
  then have "s = unat (d ! 2) + unat (d ! 3) + unat (d ! 4) + unat (d ! 5) + unat (d ! 6) + unat (d ! 7)"
    by (simp add: bassSum_def startBin_def endBin_def upt_rec split: if_splits)
  then show ?thesis
    using u [of "d ! 2"] u [of "d ! 3"] u [of "d ! 4"] u [of "d ! 5"] u [of "d ! 6"] u [of "d ! 7"]
    by linarith
qed

lemma bassLevelOf_range: "bassLevelOf d = Some b \<Longrightarrow> 0 \<le> b \<and> b \<le> 1"
proof -
  assume a: "bassLevelOf d = Some b"
  then obtain s where s: "bassSum d = Some s" and b: "b = (real s / 6) / 255"
    by (auto simp: bassLevelOf_def startBin_def endBin_def split: option.splits)
  have "real s \<le> 6 * 255" using bassSum_le [OF s] by linarith
  then show ?thesis by (simp add: b)
qed

section \<open>Properties of the analysis in double arithmetic\<close>

lemma pow2_powr: "pow2 e = 2 powr (of_int e)"
  by (simp add: pow2_def powr_real_of_int inverse_eq_divide)

text \<open>The value of \<open>toDouble\<close> on a number whose binade is known.\<close>

lemma toDouble_normal:
  assumes "pow2 e \<le> \<bar>x\<bar>" and "\<bar>x\<bar> < pow2 (e + 1)" and "- 1022 \<le> e"
  shows "toDouble x = sgn x * (of_int (roundEven (\<bar>x\<bar> / pow2 (e - 52))) * pow2 (e - 52))"
proof -
  have "0 < pow2 e" by (simp add: pow2_powr)
  with assms(1) have pos: "0 < \<bar>x\<bar>" by linarith
  then have nz: "x \<noteq> 0" by simp
  have "\<lfloor>log 2 \<bar>x\<bar>\<rfloor> = e"
    using assms(1,2) pos by (simp add: floor_log_eq_powr_iff pow2_powr)
  with nz assms(3) show ?thesis
    by (simp add: toDouble_def Let_def max_def)
qed

text \<open>With the identity as rounding the double forms are the exact ones.\<close>

lemma avgEnergyR_exact: "avgEnergyR (\<lambda>x. x) h = avgEnergy h"
  by (simp add: avgEnergyR_def avgEnergy_def)

lemma thresholdR_exact: "thresholdR (\<lambda>x. x) avg i = threshold avg i"
  by (simp add: thresholdR_def sensitivityR_def threshold_def sensitivity_def)

lemma detectBeatR_exact: "detectBeatR (\<lambda>x. x) i t b r = detectBeat i t b r"
  by (cases "avgEnergy (pushEnergy (energyHistory r) b)")
    (simp_all add: detectBeatR_def detectBeat_def avgEnergyR_exact thresholdR_exact Let_def)

lemma flashOverlayR_exact: "flashOverlayR (\<lambda>x. x) r = flashOverlay r"
  by (simp add: flashOverlayR_def flashOverlay_def)

lemma renderFrameR_exact: "renderFrameR (\<lambda>x. x) i ready t a rnd r = renderFrame i ready t a rnd r"
  by (cases a)
    (simp_all add: renderFrameR_def renderFrame_def detectBeatR_exact flashOverlayR_exact)

lemma baselineR_defined: "\<exists>avg. baselineR rd h b = Some avg"
  using pushEnergy_not_Nil [of h b] by (simp add: baselineR_def avgEnergyR_def)

lemma detectBeatR_fst:
  "baselineR rd (energyHistory r) b = Some avg \<Longrightarrow>
   fst (detectBeatR rd i t b r)
     = (b > thresholdR rd avg i \<and> b > rd 0.3 \<and> rd (t - lastBeatTime r) > 200)"
  by (auto simp: detectBeatR_def baselineR_def Let_def)

lemma detectBeatR_lastBeatTime:
  "lastBeatTime (snd (detectBeatR rd i t b r))
     = (if fst (detectBeatR rd i t b r) then t else lastBeatTime r)"
  by (simp add: detectBeatR_def Let_def split: option.splits)

lemma detectBeatR_other_fields:
  "sequenceIndex (snd (detectBeatR rd i t b r)) = sequenceIndex r
   \<and> beatFlash (snd (detectBeatR rd i t b r)) = beatFlash r"
  by (simp add: detectBeatR_def Let_def split: option.splits)

lemma flashOverlayR_fields:
  "sequenceIndex (fst (flashOverlayR rd r)) = sequenceIndex r
   \<and> lastBeatTime (fst (flashOverlayR rd r)) = lastBeatTime r"
  by (simp add: flashOverlayR_def Let_def)

lemma sequencer_lastBeatTime: "lastBeatTime (sequencer beat rnd r) = lastBeatTime r"
  by (simp add: sequencer_def)

text \<open>What a frame that analyses a bass level takes over from the detector.\<close>

lemma renderFrameR_analysed:
  "map_option isBeat (fst (renderFrameR rd i True t (Some b) rnd r))
     = Some (fst (detectBeatR rd i t b r))
   \<and> lastBeatTime (snd (renderFrameR rd i True t (Some b) rnd r))
     = lastBeatTime (snd (detectBeatR rd i t b r))"
proof -
  obtain bt r1 where d: "detectBeatR rd i t b r = (bt, r1)" by (cases "detectBeatR rd i t b r")
  obtain r3 al where f: "flashOverlayR rd (sequencer bt rnd r1) = (r3, al)"
    by (cases "flashOverlayR rd (sequencer bt rnd r1)")
  have "lastBeatTime r3 = lastBeatTime r1"
    using flashOverlayR_fields [of rd "sequencer bt rnd r1"] f
    by (simp add: sequencer_lastBeatTime)
  then show ?thesis
    by (simp add: renderFrameR_def d f)
qed

lemma renderFrameR_beat:
  assumes "baselineR rd (energyHistory r) b = Some avg"
  shows "map_option isBeat (fst (renderFrameR rd i True t (Some b) rnd r))
           = Some (b > thresholdR rd avg i \<and> b > rd 0.3 \<and> rd (t - lastBeatTime r) > 200)
       \<and> lastBeatTime (snd (renderFrameR rd i True t (Some b) rnd r))
           = (if b > thresholdR rd avg i \<and> b > rd 0.3 \<and> rd (t - lastBeatTime r) > 200
              then t else lastBeatTime r)"
  using renderFrameR_analysed [of rd i t b rnd r] detectBeatR_fst [OF assms, of i t]
    detectBeatR_lastBeatTime [of rd i t b r]
  by simp

text \<open>The index and the pose of a frame, from the beat it has accepted or not.\<close>

lemma renderFrameR_index:
  "sequenceIndex (snd (renderFrameR rd i True t a rnd r))
     = (if map_option isBeat (fst (renderFrameR rd i True t a rnd r)) = Some True
        then advance rnd (sequenceIndex r) else sequenceIndex r)
   \<and> map_option pose (fst (renderFrameR rd i True t a rnd r))
     = Some (desiredPose (sequenceIndex (snd (renderFrameR rd i True t a rnd r))))"
proof -
  obtain bt lv r1 where d:
    "(case a of None \<Rightarrow> (False, 0, r)
      | Some b \<Rightarrow> (let (bt, r') = detectBeatR rd i t b r in (bt, b, r'))) = (bt, lv, r1)"
    using prod_cases3 by blast
  have si: "sequenceIndex r1 = sequenceIndex r"
  proof (cases a)
    case None
    with d show ?thesis by simp
  next
    case (Some b)
    with d have "r1 = snd (detectBeatR rd i t b r)"
      by (simp add: Let_def split: prod.splits)
    then show ?thesis by (simp add: detectBeatR_other_fields)
  qed
  let ?r2 = "sequencer bt rnd r1"
  obtain r3 al where f: "flashOverlayR rd ?r2 = (r3, al)"
    by (cases "flashOverlayR rd ?r2")
  have rf: "renderFrameR rd i True t a rnd r
      = (Some \<lparr>isBeat = bt, bassLevel = lv, pose = desiredPose (sequenceIndex ?r2),
                overlayAlpha = al\<rparr>, r3)"
    unfolding renderFrameR_def d by (simp add: f)
  have e3: "sequenceIndex r3 = sequenceIndex ?r2"
    using flashOverlayR_fields [of rd ?r2] f by simp
  have e2: "sequenceIndex ?r2 = (if bt then advance rnd (sequenceIndex r) else sequenceIndex r)"
    using si by (simp add: sequencer_def)
  show ?thesis
    unfolding rf using e2 e3 by simp
qed

text \<open>Values of \<open>toDouble\<close> that the examples below use.\<close>

lemma toDouble_0: "toDouble 0 = 0"
  by (simp add: toDouble_def)

lemma toDouble_values:
  "toDouble 1 = 1"
  "toDouble (1 / 2) = 1 / 2"
  "toDouble (1 / 4) = 1 / 4"
  "toDouble (3 / 2) = 3 / 2"
  "toDouble (5 / 4) = 5 / 4"
  "toDouble (5 / 8) = 5 / 8"
  "toDouble 200 = 200"
  "toDouble 1000 = 1000"
  "toDouble (3 / 10) = 5404319552844595 / 18014398509481984"
  using toDouble_normal [of 0 1] toDouble_normal [of "- 1" "1 / 2"]
    toDouble_normal [of "- 2" "1 / 4"] toDouble_normal [of 0 "3 / 2"]
    toDouble_normal [of 0 "5 / 4"] toDouble_normal [of "- 1" "5 / 8"]
    toDouble_normal [of 7 200] toDouble_normal [of 9 1000]
    toDouble_normal [of "- 2" "3 / 10"]
  by (simp_all add: pow2_def roundEven_def)

lemma toDouble_example:
  "toDouble (221 / 2) = 221 / 2"
  "toDouble (13 / 30) = 1951559838527215 / 4503599627370496"
  "toDouble (1105 / 6) = 6479788526359893 / 35184372088832"
  "toDouble (2159929508786631 / 2990671627550720) = 6505199461757383 / 9007199254740992"
  "toDouble (1951559838527215 / 4503599627370496) = 1951559838527215 / 4503599627370496"
  "toDouble (10408319138811813 / 9007199254740992) = 2602079784702953 / 2251799813685248"
  "toDouble (2602079784702953 / 4503599627370496) = 2602079784702953 / 4503599627370496"
  "toDouble (13010398923514765 / 18014398509481984) = 3252599730878691 / 4503599627370496"
  using toDouble_normal [of 6 "221 / 2"] toDouble_normal [of "- 2" "13 / 30"]
    toDouble_normal [of 7 "1105 / 6"]
    toDouble_normal [of "- 1" "2159929508786631 / 2990671627550720"]
    toDouble_normal [of "- 2" "1951559838527215 / 4503599627370496"]
    toDouble_normal [of 0 "10408319138811813 / 9007199254740992"]
    toDouble_normal [of "- 1" "2602079784702953 / 4503599627370496"]
    toDouble_normal [of "- 1" "13010398923514765 / 18014398509481984"]
  by (simp_all add: pow2_def roundEven_def)

text \<open>
  Two frames. The bins 2 to 7 of the first add up to 663, those of the second to
  1105; these are their bass levels, and the mean and the threshold of the
  second frame at slider 50, as the code computes them.
\<close>

lemma bassLevelOfR_example:
  "bassLevelOfR toDouble [0, 0, 110, 110, 110, 111, 111, 111]
     = Some (1951559838527215 / 4503599627370496)"
  "bassLevelOfR toDouble [0, 0, 184, 184, 184, 184, 184, 185]
     = Some (6505199461757383 / 9007199254740992)"
  by (simp_all add: bassLevelOfR_def bassSum_def startBin_def endBin_def upt_rec toDouble_example)

lemma baselineR_example:
  "baselineR toDouble [1951559838527215 / 4503599627370496]
       (6505199461757383 / 9007199254740992)
     = Some (2602079784702953 / 4503599627370496)"
  by (simp add: baselineR_def avgEnergyR_def pushEnergy_def historySize_def toDouble_example)

lemma thresholdR_example:
  "thresholdR toDouble (2602079784702953 / 4503599627370496) 50
     = 3252599730878691 / 4503599627370496"
  by (simp add: thresholdR_def sensitivityR_def toDouble_values toDouble_example)

text \<open>
  The rounding decides this beat: the threshold computed in doubles is just
  below the bass level of the second frame and the code accepts the beat, the
  threshold of exact arithmetic is just above it.
\<close>

lemma rounding_decides_beat:
  "fst (detectBeatR toDouble 50 1000 (6505199461757383 / 9007199254740992)
          (initialRefs\<lparr>energyHistory := [1951559838527215 / 4503599627370496]\<rparr>))
   \<and> \<not> fst (detectBeat 50 1000 (6505199461757383 / 9007199254740992)
          (initialRefs\<lparr>energyHistory := [1951559838527215 / 4503599627370496]\<rparr>))"
proof -
  let ?r = "initialRefs\<lparr>energyHistory := [1951559838527215 / 4503599627370496]\<rparr>"
  have h: "energyHistory ?r = [1951559838527215 / 4503599627370496]" by simp
  have l: "lastBeatTime ?r = 0" by (simp add: initialRefs_def)
  have hb: "baselineR toDouble (energyHistory ?r) (6505199461757383 / 9007199254740992)
      = Some (2602079784702953 / 4503599627370496)"
    using baselineR_example by simp
  have a: "fst (detectBeatR toDouble 50 1000 (6505199461757383 / 9007199254740992) ?r)"
    using detectBeatR_fst [OF hb, of 50 1000]
    by (simp add: l thresholdR_example toDouble_values)
  have he: "baseline (energyHistory ?r) (6505199461757383 / 9007199254740992)
      = Some (10408319138811813 / 18014398509481984)"
    by (simp add: baseline_def avgEnergy_def pushEnergy_def historySize_def)
  have b: "\<not> fst (detectBeat 50 1000 (6505199461757383 / 9007199254740992) ?r)"
    using detectBeat_fst [OF he, of 50 1000]
    by (simp add: threshold_def sensitivity_def)
  from a b show ?thesis by blast
qed

section \<open>Properties of the sequencer and of the flash\<close>

lemma smod_6_nonneg: "0 \<le> k \<Longrightarrow> k smod (6::int) = k mod 6"
  by (simp add: signed_modulo_int_def sgn_if)

lemma advance_plain: "0 \<le> i \<Longrightarrow> \<not> rnd < 0.1 \<Longrightarrow> advance rnd i = (i + 1) mod 6"
  by (simp add: advance_def sequence_def smod_6_nonneg)

lemma advance_stutter:
  "0 \<le> i \<Longrightarrow> rnd < 0.1 \<Longrightarrow> advance rnd i = ((i + 1) mod 6 + 2) mod 6"
  by (simp add: advance_def sequence_def smod_6_nonneg)

lemma advance_bounds: "0 \<le> i \<Longrightarrow> 0 \<le> advance rnd i \<and> advance rnd i < 6"
  by (cases "rnd < 0.1") (simp_all add: advance_plain advance_stutter)

lemma desiredPose_defined: "0 \<le> i \<Longrightarrow> i < 6 \<Longrightarrow> desiredPose i = Some (sequence ! nat i)"
  by (simp add: desiredPose_def sequence_def)

lemma beats_no_stutter:
  assumes "sequenceIndex r = 0" and "\<forall>x \<in> set [r1, r2, r3, r4, r5, r6]. \<not> x < 0.1"
  shows "map sequenceIndex (beats [r1, r2, r3, r4, r5, r6] r) = [0, 1, 2, 3, 4, 5, 0]"
  using assms by (simp add: sequencer_def advance_plain)

lemma detectBeat_other_fields:
  "sequenceIndex (snd (detectBeat i t b r)) = sequenceIndex r
   \<and> beatFlash (snd (detectBeat i t b r)) = beatFlash r"
  by (simp add: detectBeat_def Let_def split: option.splits)

lemma renderFrame_not_ready: "renderFrame i False t a rnd r = (None, r)"
  by (simp add: renderFrame_def)

lemma renderFrame_stages:
  assumes "renderFrame i True t a rnd r = (Some f, r')"
  shows "\<exists>r1. sequenceIndex r1 = sequenceIndex r \<and> beatFlash r1 = beatFlash r
          \<and> flashOverlay (sequencer (isBeat f) rnd r1) = (r', overlayAlpha f)
          \<and> pose f = desiredPose (sequenceIndex (sequencer (isBeat f) rnd r1))"
proof (cases a)
  case None
  with assms show ?thesis
    by (auto simp: renderFrame_def Let_def split: prod.splits)
next
  case (Some b)
  with assms have "flashOverlay (sequencer (isBeat f) rnd (snd (detectBeat i t b r)))
        = (r', overlayAlpha f)
      \<and> pose f = desiredPose (sequenceIndex (sequencer (isBeat f) rnd (snd (detectBeat i t b r))))"
    by (auto simp: renderFrame_def Let_def split: prod.splits)
  with detectBeat_other_fields [of i t b r] show ?thesis by blast
qed

lemma flashOverlay_sequenceIndex: "sequenceIndex (fst (flashOverlay r)) = sequenceIndex r"
  by (simp add: flashOverlay_def Let_def)

text \<open>
  After a beat has set the flash level to 1, the overlay step of that frame and
  of the frames that follow decay it: after \<open>n\<close> steps the level is \<open>0.85 ^ n\<close>, up to
  \<open>n = 29\<close>.
\<close>

lemma flash_after_beat:
  "n \<le> 29 \<Longrightarrow>
   beatFlash (((\<lambda>r. fst (flashOverlay r)) ^^ n) (sequencer True rnd r)) = 0.85 ^ n"
proof (induction n)
  case 0
  then show ?case by (simp add: sequencer_def)
next
  case (Suc n)
  then have n: "n \<le> 28" by simp
  have "(0.85 :: real) ^ 28 \<le> 0.85 ^ n"
    using n by (intro power_decreasing) simp_all
  moreover have "(0.01 :: real) < 0.85 ^ 28" by (simp add: power_divide)
  ultimately have "(0.01 :: real) < 0.85 ^ n" by linarith
  with Suc show ?case by (simp add: flashOverlay_def Let_def)
qed

section \<open>Properties of the export pipeline\<close>

lemma length_filter_update:
  "i < length xs \<Longrightarrow>
   length (filter P (xs[i := y])) + (if P (xs ! i) then 1 else 0)
     = length (filter P xs) + (if P y then 1 else 0)"
proof (induction xs arbitrary: i)
  case Nil
  then show ?case by simp
next
  case (Cons x xs)
  show ?case
  proof (cases i)
    case 0
    then show ?thesis by simp
  next
    case (Suc j)
    with Cons.prems have "j < length xs" by simp
    from Cons.IH [OF this] Suc show ?thesis by simp
  qed
qed

lemma poll_idle:
  "\<not> (i < length (sessions c) \<and> polling (sessions c ! i)) \<Longrightarrow> poll i c = c"
  by (auto simp: poll_def)

lemma onstop_idle:
  "\<not> (i < length (sessions c) \<and> recorder (sessions c ! i) = inactive
      \<and> \<not> stopHandled (sessions c ! i)) \<Longrightarrow> onstop i c = c"
  by (auto simp: onstop_def)

lemma captureInv_active:
  assumes "captureInv c" and "0 < active c"
  shows "isRecording c \<and> active c = 1 \<and> pending c = []"
proof -
  from assms have r: "isRecording c"
    by (auto simp: captureInv_def split: if_splits)
  with assms(1) have "active c + length (pending c) \<le> 1"
    by (simp add: captureInv_def)
  with assms(2) have "active c = 1" and "length (pending c) = 0"
    by linarith+
  with r show ?thesis by simp
qed

lemma active_startRecording: "active (startRecording d c) \<le> Suc (active c)"
  by (simp add: startRecording_def active_def Let_def split: option.splits)

lemma startRecording_other:
  "isRecording (startRecording d c) = isRecording c \<and> pending (startRecording d c) = pending c"
  by (simp add: startRecording_def Let_def split: option.splits)

lemma captureInv_click: "captureInv c \<Longrightarrow> captureInv (clickDownload d env suspended c)"
proof -
  assume inv: "captureInv c"
  show ?thesis
  proof (cases "isRecording c \<or> \<not> imagesReady c")
    case True
    with inv show ?thesis by (simp add: clickDownload_def)
  next
    case False
    then have z: "active c = 0" "pending c = []" using inv by (simp_all add: captureInv_def)
    have e: "clickDownload d env suspended c = handleDownload d env suspended c"
      using False by (simp add: clickDownload_def)
    show ?thesis
      using z False
      unfolding e captureInv_def
      by (cases env)
        (auto simp: handleDownload_def initAudio_def startRecording_def active_def Let_def
          split: option.splits)
  qed
qed

lemma captureInv_resumed: "captureInv c \<Longrightarrow> captureInv (resumed c)"
proof (cases "pending c")
  case Nil
  assume "captureInv c"
  with Nil show ?thesis by (simp add: resumed_def)
next
  case (Cons d ds)
  assume inv: "captureInv c"
  let ?c = "c\<lparr>pending := ds\<rparr>"
  have a: "active ?c = active c" by (simp add: active_def)
  from inv Cons have r: "isRecording c" and z: "active c = 0" and ds: "ds = []"
    by (simp_all add: captureInv_def split: if_splits)
  have "active (startRecording d ?c) \<le> 1"
    using active_startRecording [of d ?c] a z by simp
  moreover have "isRecording (startRecording d ?c)" and "pending (startRecording d ?c) = []"
    using startRecording_other [of d ?c] r ds by simp_all
  ultimately show ?thesis
    using Cons by (simp add: resumed_def captureInv_def)
qed

lemma active_poll: "active (poll i c) = active c"
proof (cases "i < length (sessions c) \<and> polling (sessions c ! i)")
  case False
  then have "poll i c = c" by (rule poll_idle)
  then show ?thesis by simp
next
  case True
  then have i: "i < length (sessions c)" by simp
  let ?s' = "(sessions c ! i)\<lparr>recorder := inactive, polling := False\<rparr>"
  have "length (filter (\<lambda>s. \<not> stopHandled s) ((sessions c)[i := ?s']))
      = length (filter (\<lambda>s. \<not> stopHandled s) (sessions c))"
    using length_filter_update [OF i, of "\<lambda>s. \<not> stopHandled s" ?s'] by simp
  then show ?thesis
    by (simp add: poll_def active_def Let_def split: option.splits)
qed

lemma isRecording_poll: "isRecording (poll i c) = isRecording c"
  by (simp add: poll_def Let_def split: option.splits)

lemma pending_poll: "pending (poll i c) = pending c"
  by (simp add: poll_def Let_def split: option.splits)

lemma captureInv_poll: "captureInv c \<Longrightarrow> captureInv (poll i c)"
  by (simp add: captureInv_def active_poll isRecording_poll pending_poll)

lemma captureInv_playback: "captureInv c \<Longrightarrow> captureInv (playback t c)"
  by (simp add: captureInv_def playback_def active_def)

lemma captureInv_onstop: "captureInv c \<Longrightarrow> captureInv (onstop i c)"
proof -
  assume inv: "captureInv c"
  show ?thesis
  proof (cases "i < length (sessions c) \<and> recorder (sessions c ! i) = inactive
         \<and> \<not> stopHandled (sessions c ! i)")
    case False
    then have "onstop i c = c" by (rule onstop_idle)
    with inv show ?thesis by simp
  next
    case True
    then have i: "i < length (sessions c)" and n: "\<not> stopHandled (sessions c ! i)" by simp_all
    let ?s' = "(sessions c ! i)\<lparr>stopHandled := True\<rparr>"
    have u: "length (filter (\<lambda>s. \<not> stopHandled s) ((sessions c)[i := ?s'])) + 1
      = length (filter (\<lambda>s. \<not> stopHandled s) (sessions c))"
      using length_filter_update [OF i, of "\<lambda>s. \<not> stopHandled s" ?s'] n by simp
    then have "0 < active c" unfolding active_def by linarith
    with inv have one: "active c = 1" and p: "pending c = []"
      using captureInv_active [of c] by simp_all
    with u have "active (onstop i c) = 0"
      using True by (simp add: onstop_def active_def)
    moreover have "pending (onstop i c) = []" using True p by (simp add: onstop_def)
    ultimately show ?thesis by (simp add: captureInv_def)
  qed
qed

lemma withinMount_captureInv: "withinMount c \<Longrightarrow> captureInv c"
proof (induction rule: withinMount.induct)
  case (mount c)
  then show ?case by (simp add: captureInv_def active_def)
next
  case (click c d env suspended)
  then show ?case by (simp add: captureInv_click)
next
  case (resume c)
  then show ?case by (simp add: captureInv_resumed)
next
  case (tick c i)
  then show ?case by (simp add: captureInv_poll)
next
  case (stopped c i)
  then show ?case by (simp add: captureInv_onstop)
next
  case (clock c t)
  then show ?case by (simp add: captureInv_playback)
next
  case (other c c')
  then show ?case by (simp add: captureInv_def active_def)
qed

lemma runPolls_append: "runPolls i (xs @ ys) c = runPolls i ys (runPolls i xs c)"
  by (induction xs arbitrary: c) simp_all

lemma poll_before:
  assumes "capturing i c" and "t < duration (sessions c ! i)"
  shows "capturing i (poll i (playback t c))
       \<and> downloadProgress (poll i (playback t c)) = min 99 (t / duration (sessions c ! i) * 100)
       \<and> calls (poll i (playback t c)) = calls c
       \<and> sessions (poll i (playback t c)) = sessions c
       \<and> isRecording (poll i (playback t c)) = isRecording c"
  using assms
  by (auto simp: capturing_def poll_def playback_def Let_def split: option.splits)

lemma poll_at:
  assumes "capturing i c" and "duration (sessions c ! i) \<le> t"
  shows "calls (poll i (playback t c)) = calls c @ [RecorderStop i, AudioPause, ClearInterval i]
       \<and> downloadProgress (poll i (playback t c)) = 100
       \<and> sessions (poll i (playback t c))
            = (sessions c)[i := (sessions c ! i)\<lparr>recorder := inactive, polling := False\<rparr>]
       \<and> isRecording (poll i (playback t c)) = isRecording c
       \<and> (\<exists>a. audioRef (poll i (playback t c)) = Some a \<and> paused a)"
  using assms
  by (auto simp: capturing_def poll_def playback_def Let_def split: option.splits)

lemma playback_paused: "audioRef c = Some a \<Longrightarrow> paused a \<Longrightarrow> playback t c = c"
  by (simp add: playback_def)

lemma runPolls_finished:
  assumes "\<not> (i < length (sessions c) \<and> polling (sessions c ! i))"
    and "audioRef c = Some a" and "paused a"
  shows "runPolls i ts c = c"
proof (induction ts)
  case Nil
  show ?case by simp
next
  case (Cons t ts)
  have "poll i (playback t c) = c"
    using assms by (simp add: playback_paused poll_idle)
  with Cons show ?case by simp
qed

lemma runPolls_before:
  assumes "capturing i c" and "\<forall>x \<in> set pre. x < duration (sessions c ! i)"
  shows "capturing i (runPolls i pre c)
       \<and> calls (runPolls i pre c) = calls c
       \<and> sessions (runPolls i pre c) = sessions c
       \<and> isRecording (runPolls i pre c) = isRecording c
       \<and> (pre \<noteq> [] \<longrightarrow> downloadProgress (runPolls i pre c)
             = min 99 (last pre / duration (sessions c ! i) * 100))"
  using assms
proof (induction pre arbitrary: c)
  case Nil
  then show ?case by simp
next
  case (Cons t pre)
  let ?c = "poll i (playback t c)"
  from Cons.prems have t: "t < duration (sessions c ! i)" by simp
  note step = poll_before [OF Cons.prems(1) t]
  from step have s: "sessions ?c = sessions c" by simp
  from step have cap: "capturing i ?c" by simp
  from Cons.prems(2) s have all: "\<forall>x \<in> set pre. x < duration (sessions ?c ! i)" by simp
  note ih = Cons.IH [OF cap all]
  show ?case
  proof (cases "pre = []")
    case True
    with step show ?thesis by simp
  next
    case False
    with ih step show ?thesis by simp
  qed
qed

text \<open>
  The state after the first click on the button, once the images are loaded:
  one session, recording, with a duration of 10 s.
\<close>

lemma recording_state:
  "clickDownload 10 InitOk False (imagesLoaded mountedComponent) =
     \<lparr>audioRef = Some \<lparr>currentTime = 0, loop = False, paused = False\<rparr>,
      destRef = True, canvasRef = True, audioCtxRef = True,
      isPlaying = False, isRecording = True, imagesReady = True, downloadProgress = 0,
      error = None,
      sessions = [\<lparr>recorder = recording, polling = True, duration = 10, stopHandled = False\<rparr>],
      pending = [], calls = [RecorderStart 0, AudioPlay]\<rparr>"
  by (simp add: clickDownload_def handleDownload_def startRecording_def initAudio_def
      imagesLoaded_def mountedComponent_def)

lemma withinMount_recording_state:
  "withinMount (clickDownload 10 InitOk False (imagesLoaded mountedComponent))"
proof -
  have "withinMount mountedComponent"
    by (rule withinMount.mount) (simp_all add: mountedComponent_def)
  then have "withinMount (imagesLoaded mountedComponent)"
    by (rule withinMount.other) (simp_all add: imagesLoaded_def)
  then show ?thesis by (rule withinMount.click)
qed

text \<open>
  Within such a mount the button guards the capture: while a session is active
  \<open>isRecording\<close> is set and no call waits at its \<open>await\<close>, so a click changes
  nothing.
\<close>

lemma guard_within_mount:
  assumes "withinMount c" and "0 < active c"
  shows "isRecording c \<and> pending c = []
       \<and> clickDownload d env suspended c = c
       \<and> sessions (clickDownload d env suspended c) = sessions c
       \<and> active (clickDownload d env suspended c) = 1"
proof -
  from assms(1) have "captureInv c" by (rule withinMount_captureInv)
  then have "isRecording c \<and> active c = 1 \<and> pending c = []"
    using assms(2) by (rule captureInv_active)
  then show ?thesis by (simp add: clickDownload_def)
qed

text \<open>
  \<open>handleDownload\<close> has no check of its own: called on that state, it would add
  a second session. The component calls it from the button only.
\<close>

lemma handleDownload_unguarded:
  "active (handleDownload 10 InitOk False (clickDownload 10 InitOk False (imagesLoaded mountedComponent))) = 2"
  by (simp add: recording_state) (simp add: handleDownload_def startRecording_def active_def)

section \<open>Beat detector\<close>

text \<open>
  Claim C1, beat acceptance. The claim asks for a beat when at least 200 ms have
  passed since the last one; the code compares with \<open>time - lastBeatTime > 200\<close>.
  What holds, in double arithmetic and for every rounding: in every frame that
  analyses a bass level \<open>b\<close>, with \<open>avg\<close> the mean the code computes over the history
  after the push and the threshold the product it computes from \<open>avg\<close> and the
  sensitivity, a beat is accepted if and only if \<open>b\<close> is above that threshold,
  \<open>b\<close> is above the literal \<open>0.3\<close> and the difference the code computes between
  the timestamp and the last-beat time is strictly above 200. On acceptance the
  timestamp of the frame becomes the last-beat time, otherwise the last-beat time
  is unchanged.
\<close>

theorem beat_acceptance:
  assumes "baselineR rd (energyHistory r) b = Some avg"
  shows "map_option isBeat (fst (renderFrameR rd i True t (Some b) rnd r))
           = Some (b > thresholdR rd avg i \<and> b > rd 0.3 \<and> rd (t - lastBeatTime r) > 200)
       \<and> lastBeatTime (snd (renderFrameR rd i True t (Some b) rnd r))
           = (if b > thresholdR rd avg i \<and> b > rd 0.3 \<and> rd (t - lastBeatTime r) > 200
              then t else lastBeatTime r)"
  using assms by (rule renderFrameR_beat)

text \<open>
  The second of the two frames above, at 1000 ms and slider 50, in the doubles
  of the code: the beat is accepted.
\<close>

theorem beat_acceptance_witness:
  "baselineR toDouble
       (energyHistory (initialRefs\<lparr>energyHistory := [1951559838527215 / 4503599627370496]\<rparr>))
       (6505199461757383 / 9007199254740992)
     = Some (2602079784702953 / 4503599627370496)
   \<and> map_option isBeat (fst (renderFrameR toDouble 50 True 1000
         (Some (6505199461757383 / 9007199254740992)) 0.5
         (initialRefs\<lparr>energyHistory := [1951559838527215 / 4503599627370496]\<rparr>))) = Some True
   \<and> lastBeatTime (snd (renderFrameR toDouble 50 True 1000
         (Some (6505199461757383 / 9007199254740992)) 0.5
         (initialRefs\<lparr>energyHistory := [1951559838527215 / 4503599627370496]\<rparr>))) = 1000"
proof -
  let ?r = "initialRefs\<lparr>energyHistory := [1951559838527215 / 4503599627370496]\<rparr>"
  have h: "baselineR toDouble (energyHistory ?r) (6505199461757383 / 9007199254740992)
     = Some (2602079784702953 / 4503599627370496)"
    using baselineR_example by simp
  have l: "lastBeatTime ?r = 0" by (simp add: initialRefs_def)
  from beat_acceptance [OF h, of 50 1000 "0.5"] h show ?thesis
    by (simp add: l thresholdR_example toDouble_values)
qed

text \<open>
  A frame exactly 200 ms after a beat at 1000 ms, with bass level 1 after one
  silent frame: the bass level is above the threshold and above 0.3, at least
  200 ms have passed, and no beat is accepted.
\<close>

theorem beat_at_200ms_counterexample:
  "map_option isBeat (fst (renderFrameR toDouble 50 True 1200 (Some 1) 0.5
       \<lparr>energyHistory = [0], lastBeatTime = 1000, sequenceIndex = 1, beatFlash = 0\<rparr>))
     = Some False
   \<and> lastBeatTime (snd (renderFrameR toDouble 50 True 1200 (Some 1) 0.5
       \<lparr>energyHistory = [0], lastBeatTime = 1000, sequenceIndex = 1, beatFlash = 0\<rparr>)) = 1000
   \<and> baselineR toDouble [0] 1 = Some (1 / 2)
   \<and> 1 > thresholdR toDouble (1 / 2) 50 \<and> 1 > toDouble 0.3
   \<and> toDouble (1200 - 1000) \<ge> 200"
proof -
  let ?r = "\<lparr>energyHistory = [0], lastBeatTime = 1000, sequenceIndex = 1, beatFlash = 0\<rparr>"
  have h: "baselineR toDouble (energyHistory ?r) 1 = Some (1 / 2)"
    by (simp add: baselineR_def avgEnergyR_def pushEnergy_def historySize_def toDouble_0
        toDouble_values)
  have t: "thresholdR toDouble (1 / 2) 50 = 5 / 8"
    by (simp add: thresholdR_def sensitivityR_def toDouble_values)
  from renderFrameR_beat [OF h, of 50 1200 "0.5"] h show ?thesis
    by (simp add: t toDouble_values)
qed

text \<open>
  Claim C4, the energy history is a bounded FIFO. Starting from the empty
  history of the mounted component, after any sequence \<open>xs\<close> of pushes the history
  holds at most 60 samples, and it holds the last 60 samples pushed (all of them
  when there are fewer), in the order they were pushed. A push onto a history
  below capacity appends; a push onto a full history drops the oldest sample and
  appends the new one, and the length stays 60.
\<close>

theorem energyHistory_bounded_fifo:
  "historySize = 60
   \<and> length (foldl pushEnergy [] xs) \<le> 60
   \<and> foldl pushEnergy [] xs = drop (length xs - 60) xs
   \<and> (length h < 60 \<longrightarrow> pushEnergy h x = h @ [x])
   \<and> (length h = 60 \<longrightarrow> pushEnergy h x = tl h @ [x] \<and> length (pushEnergy h x) = 60)"
proof -
  have f: "foldl pushEnergy [] xs = drop (length xs - 60) xs"
    using foldl_pushEnergy [of "[]" xs] by (simp add: historySize_def)
  have l: "length (foldl pushEnergy [] xs) \<le> 60"
    unfolding f by simp
  have b: "length h < 60 \<longrightarrow> pushEnergy h x = h @ [x]"
    by (simp add: pushEnergy_below historySize_def)
  have e: "length h = 60 \<longrightarrow> pushEnergy h x = tl h @ [x] \<and> length (pushEnergy h x) = 60"
    by (cases h) (simp_all add: pushEnergy_full length_pushEnergy historySize_def)
  from f l b e show ?thesis by (simp add: historySize_def)
qed

text \<open>A full history of sixty zeros, and a history holding one sample.\<close>

theorem energyHistory_bounded_fifo_witness:
  "length (replicate 60 (0::real)) = 60
   \<and> pushEnergy (replicate 60 0) 1 = tl (replicate 60 0) @ [1]
   \<and> length (pushEnergy (replicate 60 0) 1) = 60
   \<and> length [0.5::real] < 60
   \<and> pushEnergy [0.5] 1 = [0.5, 1]"
  using energyHistory_bounded_fifo [of "[]" "replicate 60 0" 1]
    energyHistory_bounded_fifo [of "[]" "[0.5]" 1]
  by simp

text \<open>
  Claim C5, sensitivity monotonicity. The claim is for every baseline; with a
  baseline of 0 (silence) the threshold is 0 at every setting. What holds: for a
  fixed baseline above 0, a higher reactivity setting gives a strictly lower
  threshold \<open>baseline * (1.5 - setting / 200)\<close>; and with baseline 0 the threshold
  is 0 at every setting.
\<close>

theorem threshold_strictly_decreasing:
  "(0 < avg \<longrightarrow> s1 < s2 \<longrightarrow> threshold avg s2 < threshold avg s1) \<and> threshold 0 s = 0"
  by (simp add: threshold_def sensitivity_def)

text \<open>Baseline 0.4, settings 0 and 100.\<close>

theorem threshold_strictly_decreasing_witness:
  "(0::real) < 0.4 \<and> (0::real) < 100 \<and> threshold 0.4 100 < threshold 0.4 0
   \<and> threshold 0 50 = 0"
proof -
  have a: "(0::real) < 0.4" and b: "(0::real) < 100" by simp_all
  from threshold_strictly_decreasing [of "0.4" 0 100 50] a b show ?thesis by blast
qed

text \<open>With baseline 0 the threshold at setting 100 is not below the one at setting 0.\<close>

theorem threshold_silence_counterexample:
  "\<not> threshold 0 100 < threshold 0 0"
  by (simp add: threshold_def)

text \<open>
  Claim C6, the range of the threshold multiplier. The claim gives the multiplier
  \<open>1.5 - setting / 200\<close> the floor 0.5 at the highest setting, as the comment on
  that line of the code does (\<open>0.5 (sensitive) to 1.5 (dull)\<close>). The code computes
  1.0 at setting 100, and 1.5 at setting 0: at the most sensitive setting the
  threshold is the baseline itself.
\<close>

theorem sensitivity_at_100:
  "sensitivity 100 = 1 \<and> sensitivity 100 \<noteq> 0.5 \<and> sensitivity 0 = 1.5
   \<and> threshold avg 100 = avg"
  by (simp add: sensitivity_def threshold_def)

text \<open>
  Claim C9, the empty history. The claim gives an empty history the baseline 0.
  The code pushes the incoming sample before it takes the mean, so the mean is
  never taken over an empty history. What holds: in a frame that starts with an
  empty history and analyses a bass level \<open>b \<ge> 0\<close>, at a reactivity setting of at
  most 100, the baseline is defined and equals \<open>b\<close>, the history becomes \<open>[b]\<close>, no
  beat is accepted and the last-beat time is unchanged.
\<close>

theorem empty_history_frame:
  assumes "energyHistory r = []" and "0 \<le> b" and "i \<le> 100"
    and "renderFrame i True t (Some b) rnd r = (Some f, r')"
  shows "baseline (energyHistory r) b = Some b \<and> \<not> isBeat f \<and> energyHistory r' = [b]
       \<and> lastBeatTime r' = lastBeatTime r"
proof -
  have nb: "\<not> fst (detectBeat i t b r)"
    using assms(1-3) by (rule first_no_beat)
  have "pushEnergy [] b = [b]" by (simp add: pushEnergy_def historySize_def)
  with renderFrame_analysed [OF assms(4)] nb assms(1)
  show ?thesis
    by (simp add: baseline_Nil detectBeat_energyHistory detectBeat_lastBeatTime)
qed

text \<open>The first analysed frame after mounting, at full bass level and setting 100.\<close>

theorem empty_history_frame_witness:
  "energyHistory initialRefs = [] \<and> (0::real) \<le> 1 \<and> (100::real) \<le> 100
   \<and> renderFrame 100 True 5000 (Some 1) 0.5 initialRefs
       = (Some \<lparr>isBeat = False, bassLevel = 1, pose = Some base, overlayAlpha = None\<rparr>,
          initialRefs\<lparr>energyHistory := [1]\<rparr>)
   \<and> baseline (energyHistory initialRefs) 1 = Some 1"
proof -
  have h: "energyHistory initialRefs = []" by (simp add: initialRefs_def)
  have i: "beatFlash initialRefs = 0" "sequenceIndex initialRefs = 0"
    by (simp_all add: initialRefs_def)
  have a: "avgEnergy [1] = Some 1" by (simp add: avgEnergy_def)
  have d: "detectBeat 100 5000 1 initialRefs = (False, initialRefs\<lparr>energyHistory := [1]\<rparr>)"
    by (simp add: detectBeat_def pushEnergy_def historySize_def initialRefs_def a
        threshold_def sensitivity_def)
  have e: "renderFrame 100 True 5000 (Some 1) 0.5 initialRefs
       = (Some \<lparr>isBeat = False, bassLevel = 1, pose = Some base, overlayAlpha = None\<rparr>,
          initialRefs\<lparr>energyHistory := [1]\<rparr>)"
    by (simp add: renderFrame_def d sequencer_def flashOverlay_def desiredPose_def sequence_def i)
  from empty_history_frame [OF h _ _ e] h e show ?thesis by simp
qed

text \<open>
  With an empty history and an incoming bass level of 0.5 the baseline is 0.5,
  not 0; and the mean of an empty array on its own is \<open>NaN\<close>.
\<close>

theorem empty_history_baseline_counterexample:
  "baseline (energyHistory initialRefs) 0.5 = Some 0.5 \<and> baseline (energyHistory initialRefs) 0.5 \<noteq> Some 0
   \<and> avgEnergy [] = None"
  by (simp add: baseline_def avgEnergy_def pushEnergy_def historySize_def initialRefs_def)

section \<open>Sequencer\<close>

text \<open>
  Claim C7, the sequencer cycle. The pose order is the array
  \<open>[base, var1, var2, var3, var2, var1]\<close> of length 6. On an accepted beat the
  sequencer moves the index to \<open>advance\<close> of it, and without a beat it leaves the
  index alone; so does every rendered frame, in double and in exact arithmetic,
  and the pose of the frame is the entry at the new index. \<open>advance\<close> of an index
  that is not negative is the index plus 1 modulo 6 and, when the stutter applies
  (\<open>Math.random() < 0.1\<close>), a further 2 modulo 6. From index 0, six accepted beats
  without stutter go through the indices 0, 1, 2, 3, 4, 5 and back to 0, showing
  the poses in the order of the array and \<open>base\<close> again after the sixth beat, not
  before.
\<close>

theorem sequencer_cycle:
  "sequence = [base, var1, var2, var3, var2, var1] \<and> length sequence = 6
   \<and> sequenceIndex (sequencer True rnd r) = advance rnd (sequenceIndex r)
   \<and> sequenceIndex (sequencer False rnd r) = sequenceIndex r
   \<and> sequenceIndex (snd (renderFrameR rd i True t a rnd r))
       = (if map_option isBeat (fst (renderFrameR rd i True t a rnd r)) = Some True
          then advance rnd (sequenceIndex r) else sequenceIndex r)
   \<and> map_option pose (fst (renderFrameR rd i True t a rnd r))
       = Some (desiredPose (sequenceIndex (snd (renderFrameR rd i True t a rnd r))))
   \<and> sequenceIndex (snd (renderFrame i True t a rnd r))
       = (if map_option isBeat (fst (renderFrame i True t a rnd r)) = Some True
          then advance rnd (sequenceIndex r) else sequenceIndex r)
   \<and> (0 \<le> j \<and> \<not> rnd < 0.1 \<longrightarrow> advance rnd j = (j + 1) mod 6)
   \<and> (0 \<le> j \<and> rnd < 0.1 \<longrightarrow> advance rnd j = ((j + 1) mod 6 + 2) mod 6)
   \<and> (sequenceIndex r = 0 \<and> (\<forall>x \<in> set [r1, r2, r3, r4, r5, r6]. \<not> x < 0.1) \<longrightarrow>
        map sequenceIndex (beats [r1, r2, r3, r4, r5, r6] r) = [0, 1, 2, 3, 4, 5, 0]
        \<and> map (\<lambda>x. desiredPose (sequenceIndex x)) (beats [r1, r2, r3, r4, r5, r6] r)
            = [Some base, Some var1, Some var2, Some var3, Some var2, Some var1, Some base])"
proof -
  have s: "sequenceIndex (sequencer True rnd r) = advance rnd (sequenceIndex r)
      \<and> sequenceIndex (sequencer False rnd r) = sequenceIndex r"
    by (simp add: sequencer_def)
  note fr = renderFrameR_index [of rd i t a rnd r]
  note fe = renderFrameR_index [of "\<lambda>x. x" i t a rnd r, unfolded renderFrameR_exact]
  have c: "sequenceIndex r = 0 \<and> (\<forall>x \<in> set [r1, r2, r3, r4, r5, r6]. \<not> x < 0.1) \<longrightarrow>
        map sequenceIndex (beats [r1, r2, r3, r4, r5, r6] r) = [0, 1, 2, 3, 4, 5, 0]
        \<and> map (\<lambda>x. desiredPose (sequenceIndex x)) (beats [r1, r2, r3, r4, r5, r6] r)
            = [Some base, Some var1, Some var2, Some var3, Some var2, Some var1, Some base]"
  proof (intro impI)
    assume a: "sequenceIndex r = 0 \<and> (\<forall>x \<in> set [r1, r2, r3, r4, r5, r6]. \<not> x < 0.1)"
    then have m: "map sequenceIndex (beats [r1, r2, r3, r4, r5, r6] r) = [0, 1, 2, 3, 4, 5, 0]"
      by (intro beats_no_stutter) simp_all
    have "map (\<lambda>x. desiredPose (sequenceIndex x)) (beats [r1, r2, r3, r4, r5, r6] r)
        = map desiredPose (map sequenceIndex (beats [r1, r2, r3, r4, r5, r6] r))"
      by (simp only: map_map comp_def)
    also have "\<dots> = [Some base, Some var1, Some var2, Some var3, Some var2, Some var1, Some base]"
      unfolding m by (simp add: desiredPose_def sequence_def)
    finally show "map sequenceIndex (beats [r1, r2, r3, r4, r5, r6] r) = [0, 1, 2, 3, 4, 5, 0]
        \<and> map (\<lambda>x. desiredPose (sequenceIndex x)) (beats [r1, r2, r3, r4, r5, r6] r)
            = [Some base, Some var1, Some var2, Some var3, Some var2, Some var1, Some base]"
      using m by simp
  qed
  have p: "(0 \<le> j \<and> \<not> rnd < 0.1 \<longrightarrow> advance rnd j = (j + 1) mod 6)
      \<and> (0 \<le> j \<and> rnd < 0.1 \<longrightarrow> advance rnd j = ((j + 1) mod 6 + 2) mod 6)"
    by (simp add: advance_plain advance_stutter)
  have q: "sequence = [base, var1, var2, var3, var2, var1] \<and> length sequence = 6"
    by (simp add: sequence_def)
  from q s fr fe c p show ?thesis by blast
qed

text \<open>
  One beat from index 3 without and with stutter, six beats without from the
  refs of the mounted component, and the frame of claim C1 that accepts a beat at
  index 0.
\<close>

theorem sequencer_cycle_witness:
  "advance 0.5 3 = 4 \<and> advance 0.05 3 = 0
   \<and> sequenceIndex initialRefs = 0
   \<and> map sequenceIndex (beats [0.5, 0.9, 0.1, 0.3, 0.7, 0.2] initialRefs) = [0, 1, 2, 3, 4, 5, 0]
   \<and> map (\<lambda>x. desiredPose (sequenceIndex x)) (beats [0.5, 0.9, 0.1, 0.3, 0.7, 0.2] initialRefs)
        = [Some base, Some var1, Some var2, Some var3, Some var2, Some var1, Some base]
   \<and> map_option isBeat (fst (renderFrameR toDouble 50 True 1000
         (Some (6505199461757383 / 9007199254740992)) 0.5
         (initialRefs\<lparr>energyHistory := [1951559838527215 / 4503599627370496]\<rparr>))) = Some True
   \<and> sequenceIndex (snd (renderFrameR toDouble 50 True 1000
         (Some (6505199461757383 / 9007199254740992)) 0.5
         (initialRefs\<lparr>energyHistory := [1951559838527215 / 4503599627370496]\<rparr>))) = 1
   \<and> map_option pose (fst (renderFrameR toDouble 50 True 1000
         (Some (6505199461757383 / 9007199254740992)) 0.5
         (initialRefs\<lparr>energyHistory := [1951559838527215 / 4503599627370496]\<rparr>))) = Some (Some var1)"
proof -
  let ?r = "initialRefs\<lparr>energyHistory := [1951559838527215 / 4503599627370496]\<rparr>"
  let ?b = "6505199461757383 / 9007199254740992 :: real"
  note plain = sequencer_cycle [of "0.5" initialRefs toDouble 50 1000 "Some ?b" 3
      "0.5" "0.9" "0.1" "0.3" "0.7" "0.2"]
  note stutter = sequencer_cycle [of "0.05" initialRefs toDouble 50 1000 "Some ?b" 3
      "0.5" "0.9" "0.1" "0.3" "0.7" "0.2"]
  note frame = sequencer_cycle [of "0.5" ?r toDouble 50 1000 "Some ?b" 3
      "0.5" "0.9" "0.1" "0.3" "0.7" "0.2"]
  have z: "sequenceIndex initialRefs = 0" by (simp add: initialRefs_def)
  have p: "\<forall>x \<in> set [0.5, 0.9, 0.1, 0.3, 0.7, 0.2 :: real]. \<not> x < 0.1" by simp
  from plain have a: "advance 0.5 3 = 4" by simp
  from stutter have b: "advance 0.05 3 = 0" by simp
  from plain z p have c:
    "map sequenceIndex (beats [0.5, 0.9, 0.1, 0.3, 0.7, 0.2] initialRefs) = [0, 1, 2, 3, 4, 5, 0]
     \<and> map (\<lambda>x. desiredPose (sequenceIndex x)) (beats [0.5, 0.9, 0.1, 0.3, 0.7, 0.2] initialRefs)
        = [Some base, Some var1, Some var2, Some var3, Some var2, Some var1, Some base]"
    by blast
  have h: "baselineR toDouble (energyHistory ?r) ?b = Some (2602079784702953 / 4503599627370496)"
    using baselineR_example by simp
  have l: "lastBeatTime ?r = 0" by (simp add: initialRefs_def)
  have beat: "map_option isBeat (fst (renderFrameR toDouble 50 True 1000 (Some ?b) 0.5 ?r))
      = Some True"
    using renderFrameR_beat [OF h, of 50 1000 "0.5"]
    by (simp add: l thresholdR_example toDouble_values)
  have a1: "advance 0.5 0 = 1"
    by (simp add: advance_def sequence_def signed_modulo_int_def)
  from frame beat have idx:
    "sequenceIndex (snd (renderFrameR toDouble 50 True 1000 (Some ?b) 0.5 ?r)) = 1"
    by (simp add: z a1)
  from frame have pz:
    "map_option pose (fst (renderFrameR toDouble 50 True 1000 (Some ?b) 0.5 ?r))
       = Some (desiredPose (sequenceIndex (snd (renderFrameR toDouble 50 True 1000 (Some ?b) 0.5 ?r))))"
    by blast
  have dp: "desiredPose 1 = Some var1" by (simp add: desiredPose_def sequence_def)
  have ps:
    "map_option pose (fst (renderFrameR toDouble 50 True 1000 (Some ?b) 0.5 ?r)) = Some (Some var1)"
    by (simp only: pz idx dp)
  from a b z c beat idx ps show ?thesis by blast
qed

text \<open>
  Claim C10, the sequence index stays in bounds. When the index is in
  \<open>{0, ..., 5}\<close> before a frame, it is in \<open>{0, ..., 5}\<close> after it, whether the frame
  accepts a beat or not and whether the stutter applies or not; the pose the
  frame looks up is the entry of the array at the new index, which exists. The
  index after a beat alone, \<open>advance\<close>, is in bounds as well.
\<close>

theorem sequence_index_frame:
  assumes "0 \<le> sequenceIndex r" and "sequenceIndex r < 6"
    and "renderFrame i ready t a rnd r = (out, r')"
  shows "0 \<le> sequenceIndex r' \<and> sequenceIndex r' < 6
       \<and> nat (sequenceIndex r') < length sequence
       \<and> (\<forall>f. out = Some f \<longrightarrow> pose f = Some (sequence ! nat (sequenceIndex r')))
       \<and> 0 \<le> advance rnd (sequenceIndex r) \<and> advance rnd (sequenceIndex r) < 6"
proof -
  have len: "length sequence = 6" by (simp add: sequence_def)
  have adv: "0 \<le> advance rnd (sequenceIndex r) \<and> advance rnd (sequenceIndex r) < 6"
    using assms(1) by (rule advance_bounds)
  show ?thesis
  proof (cases ready)
    case False
    with assms(3) have "out = None" and "r' = r" by (simp_all add: renderFrame_not_ready)
    moreover have "nat (sequenceIndex r) < 6" using assms(1,2) by linarith
    ultimately show ?thesis using assms(1,2) adv unfolding len by simp
  next
    case True
    with assms(3) obtain f where out: "out = Some f"
      using renderFrame_ready [of i t a rnd r] by auto
    from assms(3) True out have rf: "renderFrame i True t a rnd r = (Some f, r')" by simp
    from renderFrame_stages [OF rf] obtain r1 where
      si: "sequenceIndex r1 = sequenceIndex r" and
      fo: "flashOverlay (sequencer (isBeat f) rnd r1) = (r', overlayAlpha f)" and
      po: "pose f = desiredPose (sequenceIndex (sequencer (isBeat f) rnd r1))"
      by blast
    have b: "0 \<le> sequenceIndex (sequencer (isBeat f) rnd r1)
        \<and> sequenceIndex (sequencer (isBeat f) rnd r1) < 6"
      using assms(1,2) si advance_bounds [of "sequenceIndex r1" rnd] by (simp add: sequencer_def)
    have e: "sequenceIndex r' = sequenceIndex (sequencer (isBeat f) rnd r1)"
      using flashOverlay_sequenceIndex [of "sequencer (isBeat f) rnd r1"] fo by simp
    from b e po have "pose f = Some (sequence ! nat (sequenceIndex r'))"
      by (simp add: desiredPose_defined)
    moreover have "nat (sequenceIndex r') < 6" using b e by linarith
    ultimately show ?thesis using b e out adv unfolding len by simp
  qed
qed

text \<open>A beat with stutter at index 5: the index becomes 2 and the pose \<open>var2\<close>.\<close>

theorem sequence_index_frame_witness:
  "(0::int) \<le> sequenceIndex (initialRefs\<lparr>energyHistory := [0], sequenceIndex := 5\<rparr>)
   \<and> sequenceIndex (initialRefs\<lparr>energyHistory := [0], sequenceIndex := 5\<rparr>) < 6
   \<and> renderFrame 50 True 1000 (Some 1) 0.05 (initialRefs\<lparr>energyHistory := [0], sequenceIndex := 5\<rparr>)
       = (Some \<lparr>isBeat = True, bassLevel = 1, pose = Some var2, overlayAlpha = Some (0.85 * 0.15)\<rparr>,
          \<lparr>energyHistory = [0, 1], lastBeatTime = 1000, sequenceIndex = 2, beatFlash = 0.85\<rparr>)
   \<and> Some var2 = Some (sequence ! nat 2)"
proof -
  let ?r = "initialRefs\<lparr>energyHistory := [0], sequenceIndex := 5\<rparr>"
  have a: "0 \<le> sequenceIndex ?r" and b: "sequenceIndex ?r < 6" by simp_all
  have m: "avgEnergy [0, 1] = Some 0.5" by (simp add: avgEnergy_def)
  have d: "detectBeat 50 1000 1 ?r =
      (True, \<lparr>energyHistory = [0, 1], lastBeatTime = 1000, sequenceIndex = 5, beatFlash = 0\<rparr>)"
    by (simp add: detectBeat_def pushEnergy_def historySize_def initialRefs_def m
        threshold_def sensitivity_def)
  have e: "renderFrame 50 True 1000 (Some 1) 0.05 ?r
       = (Some \<lparr>isBeat = True, bassLevel = 1, pose = Some var2, overlayAlpha = Some (0.85 * 0.15)\<rparr>,
          \<lparr>energyHistory = [0, 1], lastBeatTime = 1000, sequenceIndex = 2, beatFlash = 0.85\<rparr>)"
    by (simp add: renderFrame_def d sequencer_def flashOverlay_def advance_def sequence_def
        desiredPose_def signed_modulo_int_def)
  from sequence_index_frame [OF a b e] a b e show ?thesis by simp
qed

section \<open>Beat flash\<close>

text \<open>
  Claim C8, flash decay. The claim multiplies the flash level by 0.85 on every
  frame without a beat, whatever its value; the code does so inside
  \<open>if (beatFlashRef.current > 0.01)\<close>. What holds, for every rendered frame:
  without a beat and with a level above 0.01, the level is multiplied by 0.85 and
  a white overlay is drawn with alpha 0.15 times the new level; without a beat
  and with a level of at most 0.01, the level is unchanged and no overlay is
  drawn; an accepted beat sets the level to 1.0, and the same frame then ends
  with level 0.85 and an overlay of alpha 0.15 * 0.85. A level of at most 1
  stays at most 1, and the alpha is then at most 0.15.
\<close>

theorem flash_decay:
  assumes "renderFrame i True t a rnd r = (Some f, r')"
  shows "(\<not> isBeat f \<and> beatFlash r > 0.01 \<longrightarrow>
            beatFlash r' = 0.85 * beatFlash r \<and> overlayAlpha f = Some (0.15 * beatFlash r'))
       \<and> (\<not> isBeat f \<and> beatFlash r \<le> 0.01 \<longrightarrow>
            beatFlash r' = beatFlash r \<and> overlayAlpha f = None)
       \<and> (isBeat f \<longrightarrow> beatFlash r' = 0.85 \<and> overlayAlpha f = Some (0.15 * 0.85))
       \<and> beatFlash (sequencer True rnd r0) = 1.0
       \<and> (beatFlash r \<le> 1 \<longrightarrow>
            beatFlash r' \<le> 1 \<and> (\<forall>alpha. overlayAlpha f = Some alpha \<longrightarrow> alpha \<le> 0.15))"
proof -
  from renderFrame_stages [OF assms] obtain r1 where
    bf: "beatFlash r1 = beatFlash r" and
    fo: "flashOverlay (sequencer (isBeat f) rnd r1) = (r', overlayAlpha f)"
    by blast
  have reset: "beatFlash (sequencer True rnd r0) = 1.0"
    by (simp add: sequencer_def)
  show ?thesis
  proof (cases "isBeat f")
    case True
    with fo have "beatFlash r' = 0.85 \<and> overlayAlpha f = Some (0.15 * 0.85)"
      by (auto simp: flashOverlay_def sequencer_def Let_def)
    with True reset show ?thesis by simp
  next
    case False
    with fo bf have
      "(beatFlash r > 0.01 \<longrightarrow>
          beatFlash r' = 0.85 * beatFlash r \<and> overlayAlpha f = Some (0.15 * beatFlash r'))
       \<and> (beatFlash r \<le> 0.01 \<longrightarrow> beatFlash r' = beatFlash r \<and> overlayAlpha f = None)"
      by (auto simp: flashOverlay_def sequencer_def Let_def split: if_splits)
    with False reset show ?thesis by auto
  qed
qed

text \<open>
  Three frames: without a beat at flash level 0.5, without a beat at flash level
  0.005, and with a beat.
\<close>

theorem flash_decay_witness:
  "renderFrame 50 True 0 None 0.5 (initialRefs\<lparr>beatFlash := 0.5\<rparr>)
     = (Some \<lparr>isBeat = False, bassLevel = 0, pose = Some base, overlayAlpha = Some 0.06375\<rparr>,
        initialRefs\<lparr>beatFlash := 0.425\<rparr>)
   \<and> beatFlash (initialRefs\<lparr>beatFlash := 0.5\<rparr>) > 0.01
   \<and> beatFlash (initialRefs\<lparr>beatFlash := 0.425\<rparr>) = 0.85 * beatFlash (initialRefs\<lparr>beatFlash := 0.5\<rparr>)
   \<and> beatFlash (initialRefs\<lparr>beatFlash := 0.5\<rparr>) \<le> 1
   \<and> (0.06375 :: real) \<le> 0.15
   \<and> renderFrame 50 True 0 None 0.5 (initialRefs\<lparr>beatFlash := 0.005\<rparr>)
     = (Some \<lparr>isBeat = False, bassLevel = 0, pose = Some base, overlayAlpha = None\<rparr>,
        initialRefs\<lparr>beatFlash := 0.005\<rparr>)
   \<and> beatFlash (initialRefs\<lparr>beatFlash := 0.005\<rparr>) \<le> 0.01
   \<and> renderFrame 50 True 1000 (Some 1) 0.5 (initialRefs\<lparr>energyHistory := [0]\<rparr>)
     = (Some \<lparr>isBeat = True, bassLevel = 1, pose = Some var1, overlayAlpha = Some (0.15 * 0.85)\<rparr>,
        \<lparr>energyHistory = [0, 1], lastBeatTime = 1000, sequenceIndex = 1, beatFlash = 0.85\<rparr>)"
proof -
  have i: "sequenceIndex initialRefs = 0" by (simp add: initialRefs_def)
  have e1: "renderFrame 50 True 0 None 0.5 (initialRefs\<lparr>beatFlash := 0.5\<rparr>)
     = (Some \<lparr>isBeat = False, bassLevel = 0, pose = Some base, overlayAlpha = Some 0.06375\<rparr>,
        initialRefs\<lparr>beatFlash := 0.425\<rparr>)"
    by (simp add: renderFrame_def sequencer_def flashOverlay_def desiredPose_def sequence_def i)
  have e2: "renderFrame 50 True 0 None 0.5 (initialRefs\<lparr>beatFlash := 0.005\<rparr>)
     = (Some \<lparr>isBeat = False, bassLevel = 0, pose = Some base, overlayAlpha = None\<rparr>,
        initialRefs\<lparr>beatFlash := 0.005\<rparr>)"
    by (simp add: renderFrame_def sequencer_def flashOverlay_def desiredPose_def sequence_def i)
  have m: "avgEnergy [0, 1] = Some 0.5" by (simp add: avgEnergy_def)
  have d: "detectBeat 50 1000 1 (initialRefs\<lparr>energyHistory := [0]\<rparr>) =
      (True, \<lparr>energyHistory = [0, 1], lastBeatTime = 1000, sequenceIndex = 0, beatFlash = 0\<rparr>)"
    by (simp add: detectBeat_def pushEnergy_def historySize_def initialRefs_def m
        threshold_def sensitivity_def)
  have e3: "renderFrame 50 True 1000 (Some 1) 0.5 (initialRefs\<lparr>energyHistory := [0]\<rparr>)
     = (Some \<lparr>isBeat = True, bassLevel = 1, pose = Some var1, overlayAlpha = Some (0.15 * 0.85)\<rparr>,
        \<lparr>energyHistory = [0, 1], lastBeatTime = 1000, sequenceIndex = 1, beatFlash = 0.85\<rparr>)"
    by (simp add: renderFrame_def d sequencer_def flashOverlay_def advance_def sequence_def
        desiredPose_def signed_modulo_int_def)
  from flash_decay [OF e1] flash_decay [OF e2] flash_decay [OF e3] e1 e2 e3
  show ?thesis by simp
qed

text \<open>
  At level \<open>0.85 ^ 29\<close>, which is below 0.01 and is the level reached 28 frames
  after the frame of a beat, a frame without a beat leaves the level as it is.
\<close>

theorem flash_decay_stops_counterexample:
  "renderFrame 50 True 0 None 0.5 (initialRefs\<lparr>beatFlash := 0.85 ^ 29\<rparr>)
     = (Some \<lparr>isBeat = False, bassLevel = 0, pose = Some base, overlayAlpha = None\<rparr>,
        initialRefs\<lparr>beatFlash := 0.85 ^ 29\<rparr>)
   \<and> beatFlash (initialRefs\<lparr>beatFlash := 0.85 ^ 29\<rparr>)
        \<noteq> 0.85 * beatFlash (initialRefs\<lparr>beatFlash := 0.85 ^ 29\<rparr>)"
proof -
  have i: "sequenceIndex initialRefs = 0" by (simp add: initialRefs_def)
  have s: "\<not> (0.85 :: real) ^ 29 > 0.01" by (simp add: power_divide)
  have n: "(0.85 :: real) ^ 29 \<noteq> 0" by simp
  show ?thesis
    using n s by (simp add: renderFrame_def sequencer_def flashOverlay_def desiredPose_def
        sequence_def i del: power_eq_0_iff)
qed

section \<open>Export\<close>

text \<open>
  Claim C2, capture termination. A session with target duration \<open>D > 0\<close> is
  recording; the timer callback sees the playback clock at the readings
  \<open>pre\<close>, all below \<open>D\<close>, then at \<open>t \<ge> D\<close>, then at any further readings \<open>post\<close>.
  Over the whole run the recorder is stopped once, playback is paused once and
  the timer is cleared once, in that order and at the reading \<open>t\<close>; the progress is
  then 100; and when the stop handler of the recorder has run, looping is on
  again, the playback position is 0, the progress is still 100 and
  \<open>isRecording\<close> is cleared. Before that, the progress after the poll at the
  \<open>k\<close>-th reading is \<open>min 99 (reading / D * 100)\<close>.
\<close>

theorem capture_termination:
  assumes "capturing i c" and "0 < duration (sessions c ! i)"
    and "\<forall>x \<in> set pre. x < duration (sessions c ! i)"
    and "duration (sessions c ! i) \<le> t"
  shows "calls (runPolls i (pre @ t # post) c)
           = calls c @ [RecorderStop i, AudioPause, ClearInterval i]
       \<and> downloadProgress (runPolls i (pre @ t # post) c) = 100
       \<and> recorder (sessions (runPolls i (pre @ t # post) c) ! i) = inactive
       \<and> \<not> polling (sessions (runPolls i (pre @ t # post) c) ! i)
       \<and> (\<exists>a. audioRef (runPolls i (pre @ t # post) c) = Some a \<and> paused a)
       \<and> (\<exists>a. audioRef (onstop i (runPolls i (pre @ t # post) c)) = Some a
                \<and> loop a \<and> currentTime a = 0)
       \<and> downloadProgress (onstop i (runPolls i (pre @ t # post) c)) = 100
       \<and> \<not> isRecording (onstop i (runPolls i (pre @ t # post) c))
       \<and> (\<forall>k < length pre. downloadProgress (runPolls i (take (Suc k) pre) c)
              = min 99 (pre ! k / duration (sessions c ! i) * 100))"
proof -
  let ?D = "duration (sessions c ! i)"
  let ?c1 = "runPolls i pre c"
  let ?c2 = "poll i (playback t ?c1)"
  note before = runPolls_before [OF assms(1,3)]
  from before have cap1: "capturing i ?c1" and s1: "sessions ?c1 = sessions c"
    and k1: "calls ?c1 = calls c" by simp_all
  from assms(4) s1 have t: "duration (sessions ?c1 ! i) \<le> t" by simp
  note at = poll_at [OF cap1 t]
  from assms(1) have i: "i < length (sessions c)" by (simp add: capturing_def)
  from assms(1) have nh: "\<not> stopHandled (sessions c ! i)" by (simp add: capturing_def)
  from at s1 have s2: "sessions ?c2
      = (sessions c)[i := (sessions c ! i)\<lparr>recorder := inactive, polling := False\<rparr>]" by simp
  from at obtain a where a: "audioRef ?c2 = Some a" "paused a" by blast
  have np: "\<not> (i < length (sessions ?c2) \<and> polling (sessions ?c2 ! i))"
    using i by (simp add: s2)
  have fin: "runPolls i post ?c2 = ?c2"
    using np a by (rule runPolls_finished)
  have run: "runPolls i (pre @ t # post) c = ?c2"
    by (simp add: runPolls_append fin)
  have stop: "audioRef (onstop i ?c2) = Some (a\<lparr>loop := True, currentTime := 0\<rparr>)
      \<and> downloadProgress (onstop i ?c2) = downloadProgress ?c2 \<and> \<not> isRecording (onstop i ?c2)"
    using i nh a by (simp add: onstop_def s2)
  have prog: "\<forall>k < length pre. downloadProgress (runPolls i (take (Suc k) pre) c)
      = min 99 (pre ! k / ?D * 100)"
  proof (intro allI impI)
    fix k assume k: "k < length pre"
    then have tk: "take (Suc k) pre = take k pre @ [pre ! k]"
      by (rule take_Suc_conv_app_nth)
    have "\<forall>x \<in> set (take (Suc k) pre). x < ?D"
      using assms(3) by (meson in_set_takeD)
    from runPolls_before [OF assms(1) this] tk
    show "downloadProgress (runPolls i (take (Suc k) pre) c) = min 99 (pre ! k / ?D * 100)"
      by simp
  qed
  have rec: "recorder (sessions ?c2 ! i) = inactive \<and> \<not> polling (sessions ?c2 ! i)"
    using i by (simp add: s2)
  from at k1 have trace: "calls ?c2 = calls c @ [RecorderStop i, AudioPause, ClearInterval i]"
    by simp
  from at have hundred: "downloadProgress ?c2 = 100" by simp
  from stop hundred have after: "(\<exists>a. audioRef (onstop i ?c2) = Some a \<and> loop a \<and> currentTime a = 0)
      \<and> downloadProgress (onstop i ?c2) = 100 \<and> \<not> isRecording (onstop i ?c2)"
    by simp
  from a have pausedNow: "\<exists>a. audioRef ?c2 = Some a \<and> paused a" by blast
  from trace hundred rec pausedNow after prog show ?thesis
    unfolding run by blast
qed

text \<open>A capture of 10 s polled at 0.1, 5, 9.95, 10 and 10.1 s.\<close>

theorem capture_termination_witness:
  "capturing 0 (clickDownload 10 InitOk False (imagesLoaded mountedComponent))
   \<and> runPolls 0 [0.1, 5, 9.95, 10, 10.1] (clickDownload 10 InitOk False (imagesLoaded mountedComponent))
       = \<lparr>audioRef = Some \<lparr>currentTime = 10, loop = False, paused = True\<rparr>,
          destRef = True, canvasRef = True, audioCtxRef = True,
          isPlaying = False, isRecording = True, imagesReady = True, downloadProgress = 100,
          error = None,
          sessions = [\<lparr>recorder = inactive, polling = False, duration = 10, stopHandled = False\<rparr>],
          pending = [],
          calls = [RecorderStart 0, AudioPlay, RecorderStop 0, AudioPause, ClearInterval 0]\<rparr>
   \<and> downloadProgress (runPolls 0 [0.1, 5] (clickDownload 10 InitOk False (imagesLoaded mountedComponent))) = 50
   \<and> downloadProgress (runPolls 0 [0.1, 5, 9.95] (clickDownload 10 InitOk False (imagesLoaded mountedComponent))) = 99
   \<and> audioRef (onstop 0 (runPolls 0 [0.1, 5, 9.95, 10, 10.1]
         (clickDownload 10 InitOk False (imagesLoaded mountedComponent))))
       = Some \<lparr>currentTime = 0, loop = True, paused = True\<rparr>"
proof -
  let ?c = "clickDownload 10 InitOk False (imagesLoaded mountedComponent)"
  have cap: "capturing 0 ?c" by (simp add: recording_state capturing_def)
  have d: "duration (sessions ?c ! 0) = 10" by (simp add: recording_state)
  have pos: "0 < duration (sessions ?c ! 0)" by (simp add: d)
  have pre: "\<forall>x \<in> set [0.1, 5, 9.95]. x < duration (sessions ?c ! 0)" by (simp add: d)
  have t: "duration (sessions ?c ! 0) \<le> 10" by (simp add: d)
  note inst = capture_termination [OF cap pos pre t, of "[10.1]"]
  have run: "runPolls 0 [0.1, 5, 9.95, 10, 10.1] ?c
       = \<lparr>audioRef = Some \<lparr>currentTime = 10, loop = False, paused = True\<rparr>,
          destRef = True, canvasRef = True, audioCtxRef = True,
          isPlaying = False, isRecording = True, imagesReady = True, downloadProgress = 100,
          error = None,
          sessions = [\<lparr>recorder = inactive, polling = False, duration = 10, stopHandled = False\<rparr>],
          pending = [],
          calls = [RecorderStart 0, AudioPlay, RecorderStop 0, AudioPause, ClearInterval 0]\<rparr>"
    by (simp add: recording_state poll_def playback_def)
  have stop: "audioRef (onstop 0 (runPolls 0 [0.1, 5, 9.95, 10, 10.1] ?c))
       = Some \<lparr>currentTime = 0, loop = True, paused = True\<rparr>"
    unfolding run by (simp add: onstop_def)
  from inst have p: "\<forall>k<3. downloadProgress (runPolls 0 (take (Suc k) [0.1, 5, 9.95]) ?c)
       = min 99 ([0.1, 5, 9.95] ! k / duration (sessions ?c ! 0) * 100)" by simp
  from p have p1: "downloadProgress (runPolls 0 [0.1, 5] ?c) = 50"
    by (simp add: d All_less_Suc numeral_3_eq_3)
  from p have p2: "downloadProgress (runPolls 0 [0.1, 5, 9.95] ?c) = 99"
    by (simp add: d All_less_Suc numeral_3_eq_3)
  from cap run p1 p2 stop show ?thesis by blast
qed

text \<open>
  Claim C3, the re-entrancy guard. The claim lets no second session start while
  one is recording or finalizing. The button is disabled by \<open>isRecording\<close>, which
  is state of the mounted component, and nothing ends a session when the
  component unmounts. A capture is started; the user leaves step 4 and comes
  back; the component is mounted anew with \<open>isRecording = false\<close> beside the
  recorder that still records; a click on the button then starts a second
  session, and two are active.
\<close>

theorem second_session_after_remount:
  "active (clickDownload 10 InitOk False (imagesLoaded mountedComponent)) = 1
   \<and> \<not> isRecording (remount (clickDownload 10 InitOk False (imagesLoaded mountedComponent)))
   \<and> active (remount (clickDownload 10 InitOk False (imagesLoaded mountedComponent))) = 1
   \<and> sessions (clickDownload 10 InitOk False (imagesLoaded
         (remount (clickDownload 10 InitOk False (imagesLoaded mountedComponent)))))
       = [\<lparr>recorder = recording, polling = True, duration = 10, stopHandled = False\<rparr>,
          \<lparr>recorder = recording, polling = True, duration = 10, stopHandled = False\<rparr>]
   \<and> active (clickDownload 10 InitOk False (imagesLoaded
         (remount (clickDownload 10 InitOk False (imagesLoaded mountedComponent))))) = 2"
proof -
  let ?c1 = "clickDownload 10 InitOk False (imagesLoaded mountedComponent)"
  have r: "imagesLoaded (remount ?c1) =
     \<lparr>audioRef = None, destRef = False, canvasRef = True, audioCtxRef = False,
      isPlaying = False, isRecording = False, imagesReady = True, downloadProgress = 0,
      error = None,
      sessions = [\<lparr>recorder = recording, polling = True, duration = 10, stopHandled = False\<rparr>],
      pending = [], calls = [RecorderStart 0, AudioPlay]\<rparr>"
    unfolding recording_state by (simp add: remount_def imagesLoaded_def mountedComponent_def)
  have a1: "active ?c1 = 1" unfolding recording_state by (simp add: active_def)
  have a2: "\<not> isRecording (remount ?c1) \<and> active (remount ?c1) = 1"
    unfolding recording_state by (simp add: remount_def mountedComponent_def active_def)
  have s: "sessions (clickDownload 10 InitOk False (imagesLoaded (remount ?c1)))
       = [\<lparr>recorder = recording, polling = True, duration = 10, stopHandled = False\<rparr>,
          \<lparr>recorder = recording, polling = True, duration = 10, stopHandled = False\<rparr>]"
    unfolding r
    by (simp add: clickDownload_def handleDownload_def startRecording_def initAudio_def)
  then have a3: "active (clickDownload 10 InitOk False (imagesLoaded (remount ?c1))) = 2"
    by (simp add: active_def)
  from a1 a2 s a3 show ?thesis by blast
qed

end
